theory Spec2Isabelle
  imports
    Main
    "HOL-Library.Word"
    "HOL-Library.AList"
    "HOL-Library.Char_ord"
    "HOL-Library.List_Lexorder"
begin

unbundle bit_operations_syntax

section \<open>Data model of package tka: key kinds and keys\<close>

text \<open>
  Go's \<^verbatim>\<open>byte\<close> is an 8-bit word and \<^verbatim>\<open>uint\<close> a 64-bit word (the width on the
  64-bit platforms the program is built for; on a 32-bit platform \<^verbatim>\<open>uint\<close> has 32 bits,
  and what is said below of \<open>2 ^ 64\<close> holds there of \<open>2 ^ 32\<close>). A Go \<^verbatim>\<open>string\<close> is a sequence of bytes and
  is modelled as \<^typ>\<open>string\<close>, whose characters are bytes; JSON text is a \<^typ>\<open>string\<close> too.
  A slice or a map that may be \<^verbatim>\<open>nil\<close> is an \<^typ>\<open>'a option\<close>: \<^term>\<open>None\<close> is \<^verbatim>\<open>nil\<close>,
  \<^term>\<open>Some []\<close> is the empty, non-nil value. A \<^verbatim>\<open>map[string]string\<close> is the list of its
  entries (keys pairwise distinct, in some iteration order); two such lists are the same
  map when \<^const>\<open>map_of\<close> agrees on them.
\<close>

type_synonym byte = "8 word"
type_synonym uint = "64 word"
type_synonym go_map = "(string \<times> string) list"

text \<open>\<^verbatim>\<open>type KeyKind uint8\<close>, with the constants \<^verbatim>\<open>KeyInvalid = iota\<close> and \<^verbatim>\<open>Key25519\<close>.\<close>

type_synonym KeyKind = "8 word"

definition KeyInvalid :: KeyKind where
  "KeyInvalid = 0"

definition Key25519 :: KeyKind where
  "Key25519 = 1"

record Key =
  Kind :: KeyKind
  Votes :: uint
  Public :: "byte list option"
  Meta :: "go_map option"

text \<open>
  \<^verbatim>\<open>ipnstate.NetworkLockUpdate\<close>, as the log printer and its test use it: the stated
  hash of an update (a \<^verbatim>\<open>[32]byte\<close>), the name of its kind, and its serialized bytes.
\<close>

record NetworkLockUpdate =
  Hash :: "byte list"
  Change :: string
  Raw :: "byte list"

text \<open>
  Every \<^verbatim>\<open>fmt.Errorf\<close> and \<^verbatim>\<open>errors.New\<close> of the sources is one constructor, carrying the
  values the message is formatted from.
\<close>

datatype error =
    UnknownKeyKind KeyKind                \<comment> \<open>\<^verbatim>\<open>unknown key kind: %v\<close> (\<^verbatim>\<open>Key.ID\<close>)\<close>
  | NotEd25519 KeyKind                    \<comment> \<open>\<^verbatim>\<open>key is of type %v, not ed25519\<close>\<close>
  | ExcessiveKeyWeight uint               \<comment> \<open>\<^verbatim>\<open>excessive key weight: %d > 4096\<close>\<close>
  | ZeroVotes                             \<comment> \<open>\<^verbatim>\<open>key votes must be non-zero\<close>\<close>
  | MetadataTooBig uint uint              \<comment> \<open>\<^verbatim>\<open>key metadata too big (%d > %d)\<close>\<close>
  | UnrecognizedKeyKind KeyKind           \<comment> \<open>\<^verbatim>\<open>unrecognized key kind: %v\<close> (\<^verbatim>\<open>StaticValidate\<close>)\<close>
  | UnrecognisedKeyKindText string        \<comment> \<open>\<^verbatim>\<open>unrecognised key kind: %q\<close> (\<^verbatim>\<open>UnmarshalText\<close>)\<close>
  | KeyIDNotString error                  \<comment> \<open>\<^verbatim>\<open>KeyID: cannot unmarshal non-string, non-null value: %w\<close>\<close>
  | KeyIDMissingPrefix string string      \<comment> \<open>\<^verbatim>\<open>KeyID: missing required prefix %q in string %q\<close>\<close>
  | KeyIDInvalidHex string error          \<comment> \<open>\<^verbatim>\<open>KeyID: invalid hex encoding in string %q: %w\<close>\<close>
  | HexInvalidByte char                   \<comment> \<open>\<^verbatim>\<open>encoding/hex\<close>: \<^verbatim>\<open>InvalidByteError\<close>\<close>
  | HexErrLength                          \<comment> \<open>\<^verbatim>\<open>encoding/hex\<close>: \<^verbatim>\<open>ErrLength\<close>\<close>
  | JSONDecodeError                       \<comment> \<open>a syntax or type error of \<^verbatim>\<open>encoding/json\<close>\<close>
  | UnrecognisedVersion int               \<comment> \<open>\<^verbatim>\<open>unrecognised version: %q\<close>\<close>
  | Decoding error                        \<comment> \<open>\<^verbatim>\<open>decoding: %w\<close>\<close>
  | IncorrectAUMHash "byte list" NetworkLockUpdate  \<comment> \<open>\<^verbatim>\<open>incorrect AUM hash: got %v, want %v\<close>\<close>
  | ExternalError string                  \<comment> \<open>an error of a function outside these sources\<close>

subsection \<open>Decimal formatting (\<^verbatim>\<open>%d\<close>, \<^verbatim>\<open>strconv\<close>)\<close>

text \<open>The decimal digits of a number that is not negative, most significant first.\<close>

definition digit_char :: "nat \<Rightarrow> char" where
  "digit_char d = ''0123456789'' ! d"

function itoa :: "int \<Rightarrow> string" where
  "itoa n =
     (if n < 10 then [digit_char (nat n)]
      else itoa (n div 10) @ [digit_char (nat (n mod 10))])"
  by pat_completeness auto
termination
  by (relation "measure nat") auto

declare itoa.simps [simp del]

subsection \<open>\<^verbatim>\<open>KeyKind.String\<close>, \<^verbatim>\<open>MarshalText\<close>, \<^verbatim>\<open>UnmarshalText\<close>\<close>

definition KeyKind_String :: "KeyKind \<Rightarrow> string" where
  "KeyKind_String k =
     (if k = KeyInvalid then ''invalid''
      else if k = Key25519 then ''25519''
      else ''Key?<'' @ itoa (uint k) @ ''>'')"

definition KeyKind_MarshalText :: "KeyKind \<Rightarrow> error + string" where
  "KeyKind_MarshalText k = Inr (KeyKind_String k)"

text \<open>
  \<^verbatim>\<open>UnmarshalText\<close> has a pointer receiver: \<^term>\<open>Inr k\<close> is the value stored through it;
  on \<^term>\<open>Inl e\<close> the receiver is left as it was.
\<close>

definition KeyKind_UnmarshalText :: "string \<Rightarrow> error + KeyKind" where
  "KeyKind_UnmarshalText b =
     (if b = KeyKind_String KeyInvalid then Inr KeyInvalid
      else if b = KeyKind_String Key25519 then Inr Key25519
      else Inl (UnrecognisedKeyKindText b))"

subsection \<open>\<^verbatim>\<open>Key.Clone\<close>\<close>

text \<open>The builtin \<^verbatim>\<open>copy(dst, src)\<close>: the first \<^verbatim>\<open>min(len(dst), len(src))\<close> elements.\<close>

definition copy_slice :: "'a list \<Rightarrow> 'a list \<Rightarrow> 'a list" where
  "copy_slice dst src =
     (let n = min (length dst) (length src) in take n src @ drop n dst)"

text \<open>\<^verbatim>\<open>m[k] = v\<close> on a map.\<close>

definition map_store :: "string \<Rightarrow> string \<Rightarrow> go_map \<Rightarrow> go_map" where
  "map_store k v m = AList.update k v m"

definition Clone :: "Key \<Rightarrow> Key" where
  "Clone k =
     (let out = k;
          out = (case Public k of
                   None \<Rightarrow> out
                 | Some p \<Rightarrow> out\<lparr>Public := Some (copy_slice (replicate (length p) 0) p)\<rparr>);
          out = (case Meta k of
                   None \<Rightarrow> out
                 | Some m \<Rightarrow> out\<lparr>Meta := Some (fold (\<lambda>(key, v) acc. map_store key v acc) m [])\<rparr>)
      in out)"

subsection \<open>\<^verbatim>\<open>Key.ID\<close> and \<^verbatim>\<open>Key.Ed25519\<close>\<close>

text \<open>
  \<^verbatim>\<open>tkatype.KeyID\<close> and \<^verbatim>\<open>ed25519.PublicKey\<close> are both \<^verbatim>\<open>[]byte\<close>; the conversions keep
  the slice, \<^verbatim>\<open>nil\<close> included. The error results return a \<^verbatim>\<open>nil\<close> slice with the error.
\<close>

type_synonym KeyID = "byte list option"

definition ID :: "Key \<Rightarrow> error + KeyID" where
  "ID k = (if Kind k = Key25519 then Inr (Public k) else Inl (UnknownKeyKind (Kind k)))"

definition Ed25519 :: "Key \<Rightarrow> error + byte list option" where
  "Ed25519 k = (if Kind k = Key25519 then Inr (Public k) else Inl (NotEd25519 (Kind k)))"

subsection \<open>\<^verbatim>\<open>Key.StaticValidate\<close>\<close>

definition maxMetaBytes :: uint where
  "maxMetaBytes = 512"

text \<open>
  The loop \<^verbatim>\<open>for k, v := range k.Meta { metaBytes += uint(len(k) + len(v)) }\<close>: the
  accumulator is a \<^verbatim>\<open>uint\<close>, so the sum is taken modulo \<open>2 ^ 64\<close>. Ranging over a \<^verbatim>\<open>nil\<close>
  map runs the body no times.
\<close>

definition metaBytes :: "go_map option \<Rightarrow> uint" where
  "metaBytes m =
     fold (\<lambda>(key, v) acc. acc + of_nat (length key + length v))
       (case m of None \<Rightarrow> [] | Some es \<Rightarrow> es) 0"

definition StaticValidate :: "Key \<Rightarrow> error + unit" where
  "StaticValidate k =
     (if Votes k > 4096 then Inl (ExcessiveKeyWeight (Votes k))
      else if Votes k = 0 then Inl ZeroVotes
      else if metaBytes (Meta k) > maxMetaBytes
        then Inl (MetadataTooBig (metaBytes (Meta k)) maxMetaBytes)
      else if Kind k = Key25519 then Inr ()
      else Inl (UnrecognizedKeyKind (Kind k)))"

text \<open>The total byte length of the keys and values of the metadata, as a number.\<close>

definition metaSize :: "go_map option \<Rightarrow> nat" where
  "metaSize m = (\<Sum>(key, v) \<leftarrow> (case m of None \<Rightarrow> [] | Some es \<Rightarrow> es). length key + length v)"

text \<open>
  A key whose metadata makes the counter wrap around. The map has \<open>2 ^ 28\<close> entries; entry
  \<open>i\<close> has the four bytes of \<open>i\<close>, most significant first, as its name, and every entry
  holds the same value of \<open>2 ^ 36 - 4\<close> bytes. In Go:

  \<^verbatim>\<open>v := strings.Repeat("a", 1<<36-4)\<close>

  \<^verbatim>\<open>for i := 0; i < 1<<28; i++ { m[string([]byte{byte(i>>24), byte(i>>16), byte(i>>8), byte(i)})] = v }\<close>

  The values are one string, stored once: a string value is a pointer and a length, and
  the loop of \<^verbatim>\<open>StaticValidate\<close> reads the lengths only. Every entry counts
  \<open>2 ^ 36\<close> bytes, so the map counts \<open>2 ^ 64\<close>.
\<close>

definition wrapName :: "nat \<Rightarrow> string" where
  "wrapName i = [char_of (i div 2 ^ 24), char_of (i div 2 ^ 16), char_of (i div 2 ^ 8), char_of i]"

definition wrapValue :: string where
  "wrapValue = replicate (2 ^ 36 - 4) (CHR ''a'')"

definition wrapMeta :: go_map where
  "wrapMeta = map (\<lambda>i. (wrapName i, wrapValue)) [0..<2 ^ 28]"

definition wrapKey :: Key where
  "wrapKey = \<lparr>Kind = Key25519, Votes = 1, Public = Some (replicate 32 0), Meta = Some wrapMeta\<rparr>"

section \<open>Text forms\<close>

subsection \<open>Hexadecimal: \<^verbatim>\<open>%x\<close> of \<^verbatim>\<open>fmt\<close> and \<^verbatim>\<open>hex.DecodeString\<close>\<close>

text \<open>
  \<^verbatim>\<open>fmt.Sprintf("%x", b)\<close> on a byte slice writes, for each byte \<^verbatim>\<open>c\<close>, the two digits
  \<^verbatim>\<open>ldigits[c>>4]\<close> and \<^verbatim>\<open>ldigits[c&0xF]\<close>.
\<close>

definition ldigits :: string where
  "ldigits = ''0123456789abcdef''"

definition fmt_x :: "byte list \<Rightarrow> string" where
  "fmt_x bs = concat (map (\<lambda>c. [ldigits ! unat (drop_bit 4 c), ldigits ! unat (c AND 0xF)]) bs)"

definition fromHexChar :: "char \<Rightarrow> byte option" where
  "fromHexChar c =
     (if CHR ''0'' \<le> c \<and> c \<le> CHR ''9'' then Some (of_char c - of_char CHR ''0'')
      else if CHR ''a'' \<le> c \<and> c \<le> CHR ''f'' then Some (of_char c - of_char CHR ''a'' + 10)
      else if CHR ''A'' \<le> c \<and> c \<le> CHR ''F'' then Some (of_char c - of_char CHR ''A'' + 10)
      else None)"

fun hex_DecodeString :: "string \<Rightarrow> error + byte list" where
  "hex_DecodeString [] = Inr []"
| "hex_DecodeString [c] =
     (if fromHexChar c = None then Inl (HexInvalidByte c) else Inl HexErrLength)"
| "hex_DecodeString (p # q # rest) =
     (case fromHexChar p of
        None \<Rightarrow> Inl (HexInvalidByte p)
      | Some a \<Rightarrow>
          (case fromHexChar q of
             None \<Rightarrow> Inl (HexInvalidByte q)
           | Some b \<Rightarrow>
               (case hex_DecodeString rest of
                  Inl e \<Rightarrow> Inl e
                | Inr bs \<Rightarrow> Inr ((push_bit 4 a OR b) # bs))))"

text \<open>
  The lowercase hexadecimal encoding of bytes, as the specification words it: two digits
  for each byte, the high four bits first, with the letters \<^verbatim>\<open>a\<close> to \<^verbatim>\<open>f\<close>.
\<close>

definition spec_lowercase_hex :: "byte list \<Rightarrow> string" where
  "spec_lowercase_hex bs =
     concat (map (\<lambda>b. [''0123456789abcdef'' ! (unat b div 16),
                        ''0123456789abcdef'' ! (unat b mod 16)]) bs)"

subsection \<open>JSON string literals of \<^verbatim>\<open>encoding/json\<close>\<close>

text \<open>
  The standard library's encoder of a Go string (\<^verbatim>\<open>appendString\<close> with HTML escaping,
  which \<^verbatim>\<open>json.Marshal\<close> turns on) and its decoder (\<^verbatim>\<open>unquote\<close>, on a literal the
  scanner accepts). \<^term>\<open>utf8_size s\<close> is the length of the UTF-8 encoding that starts
  \<^term>\<open>s\<close>, following the ranges of \<^verbatim>\<open>unicode/utf8\<close>, and 0 where \<^verbatim>\<open>utf8.DecodeRune\<close>
  reports an invalid byte. The encoder replaces an invalid byte by the escape of U+FFFD, and
  escapes U+2028 and U+2029. The decoder copies a valid encoding as it is (re-encoding the
  rune it decodes gives the same bytes) and replaces an invalid byte by U+FFFD.
\<close>

definition dquote :: char where "dquote = CHR 0x22"
definition backslash :: char where "backslash = CHR 0x5C"

definition htmlSafe :: "char \<Rightarrow> bool" where
  "htmlSafe c \<longleftrightarrow>
     CHR 0x20 \<le> c \<and> c \<le> CHR 0x7F \<and>
     c \<noteq> dquote \<and> c \<noteq> CHR ''&'' \<and> c \<noteq> CHR ''<'' \<and> c \<noteq> CHR ''>'' \<and> c \<noteq> backslash"

definition escape_byte :: "char \<Rightarrow> string" where
  "escape_byte c =
     (if c = backslash \<or> c = dquote then [backslash, c]
      else if c = CHR 0x08 then [backslash, CHR ''b'']
      else if c = CHR 0x0C then [backslash, CHR ''f'']
      else if c = CHR 0x0A then [backslash, CHR ''n'']
      else if c = CHR 0x0D then [backslash, CHR ''r'']
      else if c = CHR 0x09 then [backslash, CHR ''t'']
      else [backslash, CHR ''u'', CHR ''0'', CHR ''0'',
            ldigits ! (of_char c div 16), ldigits ! (of_char c mod 16)])"

definition in_range :: "char \<Rightarrow> char \<Rightarrow> char \<Rightarrow> bool" where
  "in_range lo hi c \<longleftrightarrow> lo \<le> c \<and> c \<le> hi"

fun utf8_size :: "string \<Rightarrow> nat" where
  "utf8_size [] = 0"
| "utf8_size (c # cs) =
     (if c < CHR 0x80 then 1
      else if in_range (CHR 0xC2) (CHR 0xDF) c then
        (case cs of
           c1 # _ \<Rightarrow> if in_range (CHR 0x80) (CHR 0xBF) c1 then 2 else 0
         | _ \<Rightarrow> 0)
      else if in_range (CHR 0xE0) (CHR 0xEF) c then
        (case cs of
           c1 # c2 # _ \<Rightarrow>
             if in_range (if c = CHR 0xE0 then CHR 0xA0 else CHR 0x80)
                  (if c = CHR 0xED then CHR 0x9F else CHR 0xBF) c1
                \<and> in_range (CHR 0x80) (CHR 0xBF) c2
             then 3 else 0
         | _ \<Rightarrow> 0)
      else if in_range (CHR 0xF0) (CHR 0xF4) c then
        (case cs of
           c1 # c2 # c3 # _ \<Rightarrow>
             if in_range (if c = CHR 0xF0 then CHR 0x90 else CHR 0x80)
                  (if c = CHR 0xF4 then CHR 0x8F else CHR 0xBF) c1
                \<and> in_range (CHR 0x80) (CHR 0xBF) c2
                \<and> in_range (CHR 0x80) (CHR 0xBF) c3
             then 4 else 0
         | _ \<Rightarrow> 0)
      else 0)"

function utf8_ValidString :: "string \<Rightarrow> bool" where
  "utf8_ValidString s =
     (if s = [] then True
      else if utf8_size s = 0 then False
      else utf8_ValidString (drop (utf8_size s) s))"
  by pat_completeness auto
termination
  by (relation "measure length") auto

declare utf8_ValidString.simps [simp del]

definition replacement :: string where
  "replacement = [CHR 0xEF, CHR 0xBF, CHR 0xBD]"

function appendString_body :: "string \<Rightarrow> string" where
  "appendString_body s =
     (case s of
        [] \<Rightarrow> []
      | c # cs \<Rightarrow>
          if c < CHR 0x80 then
            (if htmlSafe c then [c] else escape_byte c) @ appendString_body cs
          else if utf8_size s = 0 then
            [backslash] @ ''ufffd'' @ appendString_body cs
          else if take (utf8_size s) s = [CHR 0xE2, CHR 0x80, CHR 0xA8] then
            [backslash] @ ''u2028'' @ appendString_body (drop (utf8_size s) s)
          else if take (utf8_size s) s = [CHR 0xE2, CHR 0x80, CHR 0xA9] then
            [backslash] @ ''u2029'' @ appendString_body (drop (utf8_size s) s)
          else take (utf8_size s) s @ appendString_body (drop (utf8_size s) s))"
  by pat_completeness auto
termination
  by (relation "measure length") auto

declare appendString_body.simps [simp del]

definition appendString :: "string \<Rightarrow> string" where
  "appendString s = [dquote] @ appendString_body s @ [dquote]"


text \<open>A \<^verbatim>\<open>rune\<close> is an \<^typ>\<open>int\<close>: the decoder reads one from four hexadecimal digits.\<close>

definition hexval :: "char \<Rightarrow> int option" where
  "hexval c =
     (if CHR ''0'' \<le> c \<and> c \<le> CHR ''9'' then Some (of_char c - of_char CHR ''0'')
      else if CHR ''a'' \<le> c \<and> c \<le> CHR ''f'' then Some (of_char c - of_char CHR ''a'' + 10)
      else if CHR ''A'' \<le> c \<and> c \<le> CHR ''F'' then Some (of_char c - of_char CHR ''A'' + 10)
      else None)"

definition getu4 :: "string \<Rightarrow> int option" where
  "getu4 s =
     (case s of
        b # u # h1 # h2 # h3 # h4 # _ \<Rightarrow>
          if b \<noteq> backslash \<or> u \<noteq> CHR ''u'' then None
          else
            (case (hexval h1, hexval h2, hexval h3, hexval h4) of
               (Some d1, Some d2, Some d3, Some d4) \<Rightarrow> Some (((d1 * 16 + d2) * 16 + d3) * 16 + d4)
             | _ \<Rightarrow> None)
      | _ \<Rightarrow> None)"

definition utf16_IsSurrogate :: "int \<Rightarrow> bool" where
  "utf16_IsSurrogate r \<longleftrightarrow> 0xD800 \<le> r \<and> r < 0xE000"

definition utf16_DecodeRune :: "int \<Rightarrow> int \<Rightarrow> int" where
  "utf16_DecodeRune r1 r2 =
     (if 0xD800 \<le> r1 \<and> r1 < 0xDC00 \<and> 0xDC00 \<le> r2 \<and> r2 < 0xE000
      then (r1 - 0xD800) * 1024 + (r2 - 0xDC00) + 0x10000
      else 0xFFFD)"

definition utf8_EncodeRune :: "int \<Rightarrow> string" where
  "utf8_EncodeRune r =
     (if r < 0x80 then [char_of r]
      else if r < 0x800 then [char_of (0xC0 + r div 64), char_of (0x80 + r mod 64)]
      else if 0x10FFFF < r \<or> utf16_IsSurrogate r then replacement
      else if r < 0x10000 then
        [char_of (0xE0 + r div 4096), char_of (0x80 + r div 64 mod 64), char_of (0x80 + r mod 64)]
      else
        [char_of (0xF0 + r div 262144), char_of (0x80 + r div 4096 mod 64),
         char_of (0x80 + r div 64 mod 64), char_of (0x80 + r mod 64)])"

function unquote_body :: "string \<Rightarrow> string option" where
  "unquote_body s =
     (case s of
        [] \<Rightarrow> Some []
      | c # cs \<Rightarrow>
          if c = backslash then
            (case cs of
               [] \<Rightarrow> None
             | e # rest \<Rightarrow>
                 if e = dquote \<or> e = backslash \<or> e = CHR ''/'' then
                   map_option ((#) e) (unquote_body rest)
                 else if e = CHR ''b'' then map_option ((#) (CHR 0x08)) (unquote_body rest)
                 else if e = CHR ''f'' then map_option ((#) (CHR 0x0C)) (unquote_body rest)
                 else if e = CHR ''n'' then map_option ((#) (CHR 0x0A)) (unquote_body rest)
                 else if e = CHR ''r'' then map_option ((#) (CHR 0x0D)) (unquote_body rest)
                 else if e = CHR ''t'' then map_option ((#) (CHR 0x09)) (unquote_body rest)
                 else if e = CHR ''u'' then
                   (case getu4 s of
                      None \<Rightarrow> None
                    | Some rr \<Rightarrow>
                        if utf16_IsSurrogate rr then
                          (case getu4 (drop 6 s) of
                             None \<Rightarrow> map_option ((@) replacement) (unquote_body (drop 6 s))
                           | Some rr1 \<Rightarrow>
                               if utf16_DecodeRune rr rr1 \<noteq> 0xFFFD then
                                 map_option ((@) (utf8_EncodeRune (utf16_DecodeRune rr rr1)))
                                   (unquote_body (drop 12 s))
                               else map_option ((@) replacement) (unquote_body (drop 6 s)))
                        else map_option ((@) (utf8_EncodeRune rr)) (unquote_body (drop 6 s)))
                 else None)
          else if c = dquote \<or> c < CHR 0x20 then None
          else if c < CHR 0x80 then map_option ((#) c) (unquote_body cs)
          else if utf8_size s = 0 then map_option ((@) replacement) (unquote_body cs)
          else map_option ((@) (take (utf8_size s) s)) (unquote_body (drop (utf8_size s) s)))"
  by pat_completeness auto
termination
  by (relation "measure length") auto

declare unquote_body.simps [simp del]

definition unquote :: "string \<Rightarrow> string option" where
  "unquote t =
     (if length t < 2 \<or> hd t \<noteq> dquote \<or> last t \<noteq> dquote then None
      else unquote_body (butlast (tl t)))"


text \<open>The white space of JSON, which the scanner skips around a value.\<close>

definition isSpace :: "char \<Rightarrow> bool" where
  "isSpace c \<longleftrightarrow> c = CHR '' '' \<or> c = CHR 0x09 \<or> c = CHR 0x0D \<or> c = CHR 0x0A"

definition trimSpace :: "string \<Rightarrow> string" where
  "trimSpace s = rev (dropWhile isSpace (rev (dropWhile isSpace s)))"

text \<open>\<^verbatim>\<open>json.Marshal\<close> of a string: it has no error case.\<close>

definition json_Marshal_string :: "string \<Rightarrow> error + string" where
  "json_Marshal_string s = Inr (appendString s)"

text \<open>
  \<^verbatim>\<open>json.Unmarshal(b, &s)\<close> into a fresh \<^verbatim>\<open>var s string\<close>: a string literal is unquoted,
  \<^verbatim>\<open>null\<close> leaves \<^verbatim>\<open>s\<close> empty, and every other input (another JSON value, or text that is
  not JSON) is an error.
\<close>

definition json_Unmarshal_string :: "string \<Rightarrow> error + string" where
  "json_Unmarshal_string b =
     (let t = trimSpace b in
      if t = ''null'' then Inr []
      else (case unquote t of None \<Rightarrow> Inl JSONDecodeError | Some s \<Rightarrow> Inr s))"

subsection \<open>\<^verbatim>\<open>KeyID\<close> of package tkatype and \<^verbatim>\<open>jsonPublicKey\<close> of package tka\<close>

text \<open>\<^verbatim>\<open>strings.HasPrefix\<close>.\<close>

definition strings_HasPrefix :: "string \<Rightarrow> string \<Rightarrow> bool" where
  "strings_HasPrefix s p \<longleftrightarrow> length p \<le> length s \<and> take (length p) s = p"

text \<open>\<^verbatim>\<open>len\<close> of a slice: a \<^verbatim>\<open>nil\<close> slice has length 0 and no elements.\<close>

definition slice_bytes :: "byte list option \<Rightarrow> byte list" where
  "slice_bytes k = (case k of None \<Rightarrow> [] | Some bs \<Rightarrow> bs)"

definition KeyID_MarshalJSON :: "KeyID \<Rightarrow> error + string" where
  "KeyID_MarshalJSON k =
     (if length (slice_bytes k) = 0 then Inr ''null''
      else json_Marshal_string (''tlpub:'' @ fmt_x (slice_bytes k)))"

text \<open>
  The unmarshalers have pointer receivers: \<^term>\<open>Inr k\<close> is the value stored through the
  pointer; on an error nothing is stored.
\<close>

definition KeyID_UnmarshalJSON :: "string \<Rightarrow> error + KeyID" where
  "KeyID_UnmarshalJSON b =
     (if b = ''null'' then Inr (Some [])
      else
        (case json_Unmarshal_string b of
           Inl e \<Rightarrow> Inl (KeyIDNotString e)
         | Inr s \<Rightarrow>
             if \<not> strings_HasPrefix s ''tlpub:'' then Inl (KeyIDMissingPrefix ''tlpub:'' s)
             else
               (case hex_DecodeString (drop (length ''tlpub:'') s) of
                  Inl e \<Rightarrow> Inl (KeyIDInvalidHex s e)
                | Inr decoded \<Rightarrow> Inr (Some decoded))))"

definition jsonPublicKey_MarshalJSON :: "byte list option \<Rightarrow> error + string" where
  "jsonPublicKey_MarshalJSON k =
     (if length (slice_bytes k) = 0 then Inr ''null''
      else json_Marshal_string (''tlpub:'' @ fmt_x (slice_bytes k)))"

definition jsonPublicKey_UnmarshalJSON :: "string \<Rightarrow> error + byte list option" where
  "jsonPublicKey_UnmarshalJSON b =
     (if b = ''null'' then Inr (Some [])
      else
        (case json_Unmarshal_string b of
           Inl e \<Rightarrow> Inl (KeyIDNotString e)
         | Inr s \<Rightarrow>
             if \<not> strings_HasPrefix s ''tlpub:'' then Inl (KeyIDMissingPrefix ''tlpub:'' s)
             else
               (case hex_DecodeString (drop (length ''tlpub:'') s) of
                  Inl e \<Rightarrow> Inl (KeyIDInvalidHex s e)
                | Inr decoded \<Rightarrow> Inr (Some decoded))))"

subsection \<open>\<^verbatim>\<open>Key.MarshalJSON\<close> and \<^verbatim>\<open>Key.UnmarshalJSON\<close>\<close>

text \<open>
  The structure of a JSON text: an object is the list of its members in the order of the
  text, each a name (a string literal) and a value; a scalar (a string literal, a number,
  \<^verbatim>\<open>true\<close>, \<^verbatim>\<open>false\<close> or \<^verbatim>\<open>null\<close>) is its token. \<^verbatim>\<open>json.Marshal\<close> builds the
  structure of a value and writes it without white space; \<^verbatim>\<open>json.Unmarshal\<close> reads the
  structure of a text and stores it into the value. A \<^verbatim>\<open>MarshalJSON\<close> result goes to the
  output as it is (the library compacts it and escapes HTML characters in it, which
  changes neither \<^verbatim>\<open>null\<close> nor a \<^verbatim>\<open>tlpub:\<close> string); \<^verbatim>\<open>UnmarshalJSON\<close> is given the
  text of the member's value.
\<close>

datatype json = Scalar string | Object "(string \<times> json) list" | Array "json list"

text \<open>
  \<^verbatim>\<open>json.Marshal\<close> of a \<^verbatim>\<open>map[string]string\<close>: \<^verbatim>\<open>null\<close> for a \<^verbatim>\<open>nil\<close> map, otherwise an
  object with the entries sorted by key.
\<close>

definition marshal_map :: "go_map option \<Rightarrow> json" where
  "marshal_map m =
     (case m of
        None \<Rightarrow> Scalar ''null''
      | Some es \<Rightarrow>
          Object (map (\<lambda>(key, v). (appendString key, Scalar (appendString v)))
                    (sort_key fst es)))"

text \<open>
  \<^verbatim>\<open>json.Marshal\<close> of the struct with the fields \<^verbatim>\<open>Kind\<close>, \<^verbatim>\<open>Votes\<close>, \<^verbatim>\<open>Public\<close> and
  \<^verbatim>\<open>Meta\<close>: \<^verbatim>\<open>Kind\<close> through \<^verbatim>\<open>KeyKind.MarshalText\<close> as a string, \<^verbatim>\<open>Votes\<close> in
  decimal, \<^verbatim>\<open>Public\<close> through \<^verbatim>\<open>jsonPublicKey.MarshalJSON\<close>.
\<close>

definition marshal_struct :: "Key \<Rightarrow> error + json" where
  "marshal_struct k =
     (case KeyKind_MarshalText (Kind k) of
        Inl e \<Rightarrow> Inl e
      | Inr kind \<Rightarrow>
          (case jsonPublicKey_MarshalJSON (Public k) of
             Inl e \<Rightarrow> Inl e
           | Inr pub \<Rightarrow>
               Inr (Object
                 [(appendString ''Kind'', Scalar (appendString kind)),
                  (appendString ''Votes'', Scalar (itoa (uint (Votes k)))),
                  (appendString ''Public'', Scalar pub),
                  (appendString ''Meta'', marshal_map (Meta k))])))"

text \<open>
  The decoder matches a member's name with a field exactly or, failing that, after case
  folding (\<^verbatim>\<open>foldName\<close>). Only the folding to ASCII letters matters for the four ASCII
  field names: a lower-case letter folds to its upper case, and so do the Kelvin sign
  (U+212A, to \<^verbatim>\<open>K\<close>) and the long s (U+017F, to \<^verbatim>\<open>S\<close>); every other byte is kept.
\<close>

fun foldName :: "string \<Rightarrow> string" where
  "foldName [] = []"
| "foldName (c # cs) =
     (if CHR ''a'' \<le> c \<and> c \<le> CHR ''z'' then char_of (of_char c - (32 :: nat)) # foldName cs
      else if take 3 (c # cs) = [CHR 0xE2, CHR 0x84, CHR 0xAA] then CHR ''K'' # foldName (drop 2 cs)
      else if take 2 (c # cs) = [CHR 0xC5, CHR 0xBF] then CHR ''S'' # foldName (drop 1 cs)
      else c # foldName cs)"

definition fieldNames :: "string list" where
  "fieldNames = [''Kind'', ''Votes'', ''Public'', ''Meta'']"

definition lookupField :: "string \<Rightarrow> string option" where
  "lookupField name =
     (if name \<in> set fieldNames then Some name
      else find (\<lambda>f. foldName f = foldName name) fieldNames)"

text \<open>
  A \<^verbatim>\<open>uint\<close> field takes a JSON number that \<^verbatim>\<open>strconv.ParseUint\<close> reads in base 10 into
  64 bits: digits only, and (by the JSON grammar) no leading zero.
\<close>

definition atoi :: "string \<Rightarrow> int" where
  "atoi t = foldl (\<lambda>n c. n * 10 + (of_char c - of_char CHR ''0'')) 0 t"

definition decode_uint :: "string \<Rightarrow> uint option" where
  "decode_uint t =
     (if t \<noteq> [] \<and> list_all (\<lambda>c. CHR ''0'' \<le> c \<and> c \<le> CHR ''9'') t
         \<and> (hd t = CHR ''0'' \<longrightarrow> length t = 1) \<and> atoi t < 2 ^ 64
      then Some (word_of_int (atoi t)) else None)"

text \<open>
  The members of an object decoded into a \<^verbatim>\<open>map[string]string\<close>: each value is a string
  literal, or \<^verbatim>\<open>null\<close>, which stores the empty string.
\<close>

fun decode_map_members :: "(string \<times> json) list \<Rightarrow> go_map \<Rightarrow> error + go_map" where
  "decode_map_members [] m = Inr m"
| "decode_map_members ((name, v) # ms) m =
     (case unquote name of
        None \<Rightarrow> Inl JSONDecodeError
      | Some key \<Rightarrow>
          (case v of
             Scalar t \<Rightarrow>
               if t = ''null'' then decode_map_members ms (map_store key [] m)
               else
                 (case unquote t of
                    None \<Rightarrow> Inl JSONDecodeError
                  | Some val \<Rightarrow> decode_map_members ms (map_store key val m))
           | _ \<Rightarrow> Inl JSONDecodeError))"

text \<open>
  One member decoded into the field it names: \<^verbatim>\<open>null\<close> leaves a \<^verbatim>\<open>KeyKind\<close> or a
  \<^verbatim>\<open>uint\<close> as it is and makes a map \<^verbatim>\<open>nil\<close>; \<^verbatim>\<open>Kind\<close> goes through
  \<^verbatim>\<open>KeyKind.UnmarshalText\<close>, \<^verbatim>\<open>Public\<close> through \<^verbatim>\<open>jsonPublicKey.UnmarshalJSON\<close> (also for
  \<^verbatim>\<open>null\<close>); an object for \<^verbatim>\<open>Meta\<close> adds its members to the map, which is made when it
  is \<^verbatim>\<open>nil\<close>. A member that names no field is skipped.
\<close>

definition decode_field :: "string \<Rightarrow> json \<Rightarrow> Key \<Rightarrow> error + Key" where
  "decode_field name v k =
     (case lookupField name of
        None \<Rightarrow> Inr k
      | Some f \<Rightarrow>
          if f = ''Kind'' then
            (case v of
               Scalar t \<Rightarrow>
                 if t = ''null'' then Inr k
                 else
                   (case unquote t of
                      None \<Rightarrow> Inl JSONDecodeError
                    | Some s \<Rightarrow>
                        (case KeyKind_UnmarshalText s of
                           Inl e \<Rightarrow> Inl e
                         | Inr kind \<Rightarrow> Inr (k\<lparr>Kind := kind\<rparr>)))
             | _ \<Rightarrow> Inl JSONDecodeError)
          else if f = ''Votes'' then
            (case v of
               Scalar t \<Rightarrow>
                 if t = ''null'' then Inr k
                 else
                   (case decode_uint t of
                      None \<Rightarrow> Inl JSONDecodeError
                    | Some n \<Rightarrow> Inr (k\<lparr>Votes := n\<rparr>))
             | _ \<Rightarrow> Inl JSONDecodeError)
          else if f = ''Public'' then
            (case v of
               Scalar t \<Rightarrow>
                 (case jsonPublicKey_UnmarshalJSON t of
                    Inl e \<Rightarrow> Inl e
                  | Inr p \<Rightarrow> Inr (k\<lparr>Public := p\<rparr>))
             | _ \<Rightarrow> Inl (KeyIDNotString JSONDecodeError))
          else
            (case v of
               Scalar t \<Rightarrow> if t = ''null'' then Inr (k\<lparr>Meta := None\<rparr>) else Inl JSONDecodeError
             | Object ms \<Rightarrow>
                 (case decode_map_members ms (case Meta k of None \<Rightarrow> [] | Some m \<Rightarrow> m) of
                    Inl e \<Rightarrow> Inl e
                  | Inr m \<Rightarrow> Inr (k\<lparr>Meta := Some m\<rparr>))
             | Array _ \<Rightarrow> Inl JSONDecodeError))"

fun decode_members :: "(string \<times> json) list \<Rightarrow> Key \<Rightarrow> error + Key" where
  "decode_members [] k = Inr k"
| "decode_members ((name, v) # ms) k =
     (case unquote name of
        None \<Rightarrow> Inl JSONDecodeError
      | Some n \<Rightarrow>
          (case decode_field n v k of
             Inl e \<Rightarrow> Inl e
           | Inr k' \<Rightarrow> decode_members ms k'))"

text \<open>
  \<^verbatim>\<open>json.Unmarshal\<close> into the zero value of the intermediate struct, whose four fields
  \<^verbatim>\<open>UnmarshalJSON\<close> then assigns to the receiver; on an error the receiver is left as it
  was. The model gives up at the first error, where the library may go on to report a
  later one: the result is an error in both.
\<close>

definition zeroKey :: Key where
  "zeroKey = \<lparr>Kind = 0, Votes = 0, Public = None, Meta = None\<rparr>"

definition unmarshal_struct :: "json \<Rightarrow> error + Key" where
  "unmarshal_struct b =
     (case b of
        Scalar t \<Rightarrow> if t = ''null'' then Inr zeroKey else Inl JSONDecodeError
      | Object ms \<Rightarrow> decode_members ms zeroKey
      | Array _ \<Rightarrow> Inl JSONDecodeError)"

subsection \<open>JSON texts: \<^verbatim>\<open>json.Marshal\<close> and \<^verbatim>\<open>json.Unmarshal\<close> of the standard library\<close>

text \<open>The text of a structure, as \<^verbatim>\<open>json.Marshal\<close> writes it: no white space.\<close>

definition join_commas :: "string list \<Rightarrow> string" where
  "join_commas xs = concat (case xs of [] \<Rightarrow> [] | x # rest \<Rightarrow> x # map ((@) '','') rest)"

fun render :: "json \<Rightarrow> string" where
  "render (Scalar t) = t"
| "render (Object ms) = ''{'' @ join_commas (map (\<lambda>(name, v). name @ '':'' @ render v) ms) @ ''}''"
| "render (Array vs) = ''['' @ join_commas (map render vs) @ '']''"

text \<open>
  The scanner of the decoder. A number follows the grammar of JSON: an optional minus, an
  integer part without a leading zero, an optional fraction, an optional exponent.
\<close>

definition is_digit :: "char \<Rightarrow> bool" where
  "is_digit c \<longleftrightarrow> CHR ''0'' \<le> c \<and> c \<le> CHR ''9''"

definition valid_exponent :: "string \<Rightarrow> bool" where
  "valid_exponent s =
     (case s of
        [] \<Rightarrow> True
      | e # r \<Rightarrow>
          (e = CHR ''e'' \<or> e = CHR ''E'') \<and>
          (let ds = (case r of [] \<Rightarrow> [] | sign # r' \<Rightarrow> if sign = CHR ''+'' \<or> sign = CHR ''-'' then r' else r)
           in ds \<noteq> [] \<and> list_all is_digit ds))"

definition valid_number :: "string \<Rightarrow> bool" where
  "valid_number s =
     (let s1 = (case s of [] \<Rightarrow> [] | c # r \<Rightarrow> if c = CHR ''-'' then r else s);
          ip = takeWhile is_digit s1;
          s2 = dropWhile is_digit s1
      in ip \<noteq> [] \<and> (hd ip = CHR ''0'' \<longrightarrow> length ip = 1) \<and>
         (case s2 of
            [] \<Rightarrow> True
          | c # r \<Rightarrow>
              if c = CHR ''.'' then takeWhile is_digit r \<noteq> [] \<and> valid_exponent (dropWhile is_digit r)
              else valid_exponent s2))"

text \<open>
  A string literal ends at the first quote that no backslash escapes.
  \<^term>\<open>scan_string_body\<close> reads from behind the opening quote and returns the rest of the
  literal, closing quote included, with the text that follows it.
\<close>

fun scan_string_body :: "string \<Rightarrow> (string \<times> string) option" where
  "scan_string_body [] = None"
| "scan_string_body [c] = (if c = dquote then Some ([c], []) else None)"
| "scan_string_body (c # e # r) =
     (if c = dquote then Some ([c], e # r)
      else if c = backslash then map_option (\<lambda>(t, rest). (c # e # t, rest)) (scan_string_body r)
      else map_option (\<lambda>(t, rest). (c # t, rest)) (scan_string_body (e # r)))"

text \<open>
  A scalar at the head of a text, with the text that follows it: a string literal whose
  escapes and characters the decoder accepts, a number, or one of the three names. A number
  or a name extends as far as its characters go; what JSON allows behind a value (white
  space, a comma, a closing bracket or brace) is none of them.
\<close>

definition is_number_char :: "char \<Rightarrow> bool" where
  "is_number_char c \<longleftrightarrow>
     is_digit c \<or> c = CHR ''-'' \<or> c = CHR ''+'' \<or> c = CHR ''.'' \<or> c = CHR ''e'' \<or> c = CHR ''E''"

definition is_lower :: "char \<Rightarrow> bool" where
  "is_lower c \<longleftrightarrow> CHR ''a'' \<le> c \<and> c \<le> CHR ''z''"

definition scan_scalar :: "string \<Rightarrow> (string \<times> string) option" where
  "scan_scalar s =
     (case s of
        [] \<Rightarrow> None
      | c # cs \<Rightarrow>
          if c = dquote then
            (case scan_string_body cs of
               None \<Rightarrow> None
             | Some (t, rest) \<Rightarrow> if unquote (c # t) = None then None else Some (c # t, rest))
          else if c = CHR ''-'' \<or> is_digit c then
            (if valid_number (takeWhile is_number_char s)
             then Some (takeWhile is_number_char s, dropWhile is_number_char s) else None)
          else if takeWhile is_lower s \<in> {''true'', ''false'', ''null''}
            then Some (takeWhile is_lower s, dropWhile is_lower s)
          else None)"

text \<open>
  The value at the head of a text. \<^term>\<open>fuel\<close> bounds the depth of the recursion:
  \<^term>\<open>json_parse\<close> starts with more than the length of the text. \<^term>\<open>d\<close> counts the
  objects and arrays around the value, which the decoder limits to 10000.
\<close>

definition skip_space :: "string \<Rightarrow> string" where
  "skip_space s = dropWhile isSpace s"

definition maxNestingDepth :: nat where
  "maxNestingDepth = 10000"

fun parse_value :: "nat \<Rightarrow> nat \<Rightarrow> string \<Rightarrow> (json \<times> string) option"
  and parse_members :: "nat \<Rightarrow> nat \<Rightarrow> string \<Rightarrow> ((string \<times> json) list \<times> string) option"
  and parse_elements :: "nat \<Rightarrow> nat \<Rightarrow> string \<Rightarrow> (json list \<times> string) option" where
  "parse_value 0 d s = None"
| "parse_value (Suc fuel) d s =
     (case skip_space s of
        [] \<Rightarrow> None
      | c # cs \<Rightarrow>
          if c = CHR ''{'' then
            (if maxNestingDepth \<le> d then None
             else
               (case skip_space cs of
                  [] \<Rightarrow> None
                | c' # r \<Rightarrow>
                    if c' = CHR ''}'' then Some (Object [], r)
                    else map_option (\<lambda>(ms, rest). (Object ms, rest))
                           (parse_members fuel (Suc d) (c' # r))))
          else if c = CHR ''['' then
            (if maxNestingDepth \<le> d then None
             else
               (case skip_space cs of
                  [] \<Rightarrow> None
                | c' # r \<Rightarrow>
                    if c' = CHR '']'' then Some (Array [], r)
                    else map_option (\<lambda>(vs, rest). (Array vs, rest))
                           (parse_elements fuel (Suc d) (c' # r))))
          else map_option (\<lambda>(t, rest). (Scalar t, rest)) (scan_scalar (c # cs)))"
| "parse_members 0 d s = None"
| "parse_members (Suc fuel) d s =
     (case s of
        [] \<Rightarrow> None
      | c # cs \<Rightarrow>
          if c \<noteq> dquote then None
          else
            (case scan_scalar s of
               None \<Rightarrow> None
             | Some (name, r) \<Rightarrow>
                 (case skip_space r of
                    [] \<Rightarrow> None
                  | colon # r1 \<Rightarrow>
                      if colon \<noteq> CHR '':'' then None
                      else
                        (case parse_value fuel d r1 of
                           None \<Rightarrow> None
                         | Some (v, r2) \<Rightarrow>
                             (case skip_space r2 of
                                [] \<Rightarrow> None
                              | sep # r3 \<Rightarrow>
                                  if sep = CHR ''}'' then Some ([(name, v)], r3)
                                  else if sep = CHR '','' then
                                    map_option (\<lambda>(ms, rest). ((name, v) # ms, rest))
                                      (parse_members fuel d (skip_space r3))
                                  else None)))))"
| "parse_elements 0 d s = None"
| "parse_elements (Suc fuel) d s =
     (case parse_value fuel d s of
        None \<Rightarrow> None
      | Some (v, r) \<Rightarrow>
          (case skip_space r of
             [] \<Rightarrow> None
           | sep # r1 \<Rightarrow>
               if sep = CHR '']'' then Some ([v], r1)
               else if sep = CHR '','' then
                 map_option (\<lambda>(vs, rest). (v # vs, rest)) (parse_elements fuel d r1)
               else None))"

text \<open>A whole text is one value, with white space around it.\<close>

definition json_parse :: "string \<Rightarrow> json option" where
  "json_parse s =
     (case parse_value (Suc (length s)) 0 s of
        None \<Rightarrow> None
      | Some (j, rest) \<Rightarrow> if skip_space rest = [] then Some j else None)"

text \<open>\<^verbatim>\<open>Key.MarshalJSON\<close> and \<^verbatim>\<open>Key.UnmarshalJSON\<close>, on JSON texts.\<close>

definition Key_MarshalJSON :: "Key \<Rightarrow> error + string" where
  "Key_MarshalJSON k =
     (case marshal_struct k of Inl e \<Rightarrow> Inl e | Inr j \<Rightarrow> Inr (render j))"

definition Key_UnmarshalJSON :: "string \<Rightarrow> error + Key" where
  "Key_UnmarshalJSON b =
     (case json_parse b of None \<Rightarrow> Inl JSONDecodeError | Some j \<Rightarrow> unmarshal_struct j)"

text \<open>Decoding what an encoder returned.\<close>

definition and_then :: "error + 'a \<Rightarrow> ('a \<Rightarrow> error + 'b) \<Rightarrow> error + 'b" where
  "and_then r f = (case r of Inl e \<Rightarrow> Inl e | Inr x \<Rightarrow> f x)"

section \<open>The JSON log of package jsonoutput\<close>

text \<open>
  \<^verbatim>\<open>tka.AUM\<close>, its \<^verbatim>\<open>Unserialize\<close> and \<^verbatim>\<open>Hash\<close> methods, \<^verbatim>\<open>base64.URLEncoding\<close> and the
  JSON encoder are outside these sources: the printer is modelled over any type of AUMs
  and any such functions, collected in a record. \<^term>\<open>Encode env v ms\<close> is the text that
  \<^verbatim>\<open>Encode\<close> writes for the envelope with schema version \<^term>\<open>v\<close> and messages \<^term>\<open>ms\<close>,
  or its error. The writer is the text written to it so far.
\<close>

record 'aum logMessageV1 =
  msgHash :: "byte list"
  msgAUM :: 'aum
  msgRaw :: string

record 'aum externals =
  Unserialize :: "byte list \<Rightarrow> error + 'aum"
  AUMHash :: "'aum \<Rightarrow> byte list"
  EncodeToString :: "byte list \<Rightarrow> string"
  Encode :: "string \<Rightarrow> 'aum logMessageV1 list \<Rightarrow> error + string"

text \<open>The loop over the updates, which fills \<^verbatim>\<open>messages\<close> or returns at the first error.\<close>

fun messagesV1 ::
  "'aum externals \<Rightarrow> NetworkLockUpdate list \<Rightarrow> error + 'aum logMessageV1 list" where
  "messagesV1 env [] = Inr []"
| "messagesV1 env (update # updates) =
     (case Unserialize env (Raw update) of
        Inl err \<Rightarrow> Inl (Decoding err)
      | Inr aum \<Rightarrow>
          if AUMHash env aum \<noteq> Hash update
          then Inl (IncorrectAUMHash (AUMHash env aum) update)
          else
            (case messagesV1 env updates of
               Inl err \<Rightarrow> Inl err
             | Inr messages \<Rightarrow>
                 Inr (\<lparr>msgHash = AUMHash env aum, msgAUM = aum,
                       msgRaw = EncodeToString env (Raw update)\<rparr> # messages)))"

definition printNetworkLockJSONV1 ::
  "'aum externals \<Rightarrow> string \<Rightarrow> NetworkLockUpdate list \<Rightarrow> string \<times> (error + unit)" where
  "printNetworkLockJSONV1 env out updates =
     (case messagesV1 env updates of
        Inl err \<Rightarrow> (out, Inl err)
      | Inr messages \<Rightarrow>
          (case Encode env ''1'' messages of
             Inl err \<Rightarrow> (out, Inl err)
           | Inr text \<Rightarrow> (out @ text, Inr ())))"

definition PrintNetworkLockJSON ::
  "'aum externals \<Rightarrow> string \<Rightarrow> NetworkLockUpdate list \<Rightarrow> int \<Rightarrow> string \<times> (error + unit)" where
  "PrintNetworkLockJSON env out updates jsonVersion =
     (if jsonVersion = 1 then printNetworkLockJSONV1 env out updates
      else (out, Inl (UnrecognisedVersion jsonVersion)))"

text \<open>
  An update that the V1 printer does not accept: its bytes do not decode, or the hash of
  the decoded AUM is not the hash the update states.
\<close>

definition rejected :: "'aum externals \<Rightarrow> NetworkLockUpdate \<Rightarrow> bool" where
  "rejected env u =
     (case Unserialize env (Raw u) of
        Inl e \<Rightarrow> True
      | Inr aum \<Rightarrow> AUMHash env aum \<noteq> Hash u)"

section \<open>Notions for the proofs about JSON texts\<close>

text \<open>
  A piece of a string literal after which scanning goes on as before it: it ends neither
  inside an escape nor the literal.
\<close>

definition scannable :: "string \<Rightarrow> bool" where
  "scannable t \<longleftrightarrow>
     (\<forall>x. scan_string_body (t @ x) = map_option (\<lambda>(b, rest). (t @ b, rest)) (scan_string_body x))"

text \<open>
  What follows a value inside an object, or at the end of the text; a token that the scanner
  reads as one scalar in front of it; a value that the parser reads back from its text with
  enough fuel; the text of one member; and the literal of a name that is valid UTF-8.
\<close>

definition delimited :: "string \<Rightarrow> bool" where
  "delimited r \<longleftrightarrow> (case r of [] \<Rightarrow> True | c # _ \<Rightarrow> c = CHR '','' \<or> c = CHR ''}'')"

definition parses :: "json \<Rightarrow> nat \<Rightarrow> nat \<Rightarrow> bool" where
  "parses v n D \<longleftrightarrow>
     (\<forall>fuel d r. n \<le> fuel \<longrightarrow> d \<le> D \<longrightarrow> delimited r \<longrightarrow>
        parse_value fuel d (render v @ r) = Some (v, r))"

definition scalar_token :: "string \<Rightarrow> bool" where
  "scalar_token t \<longleftrightarrow>
     t \<noteq> [] \<and> \<not> isSpace (hd t) \<and> hd t \<noteq> CHR ''{'' \<and> hd t \<noteq> CHR ''['' \<and>
     (\<forall>r. delimited r \<longrightarrow> scan_scalar (t @ r) = Some (t, r))"

definition member_text :: "string \<times> json \<Rightarrow> string" where
  "member_text m = fst m @ '':'' @ render (snd m)"

definition key_literal :: "string \<Rightarrow> bool" where
  "key_literal name \<longleftrightarrow> (\<exists>s. utf8_ValidString s \<and> name = appendString s)"

section \<open>Static validation\<close>

lemma fold_metaBytes_acc:
  "fold (\<lambda>(key, v) acc. acc + of_nat (length key + length v)) es (a :: uint)
     = a + of_nat (\<Sum>(key, v) \<leftarrow> es. length key + length v)"
  by (induction es arbitrary: a) (auto simp: algebra_simps)

lemma metaBytes_of_metaSize: "metaBytes m = of_nat (metaSize m)"
  unfolding metaBytes_def metaSize_def by (subst fold_metaBytes_acc) simp

lemma metaBytes_le_iff:
  assumes "metaSize m < 2 ^ 64"
  shows "metaBytes m \<le> maxMetaBytes \<longleftrightarrow> metaSize m \<le> 512"
proof -
  have "unat (of_nat (metaSize m) :: uint) = metaSize m"
    using assms by (simp add: unat_of_nat)
  then show ?thesis
    by (simp add: metaBytes_of_metaSize maxMetaBytes_def word_le_nat_alt)
qed

lemma metaSize_uniform:
  assumes "\<And>i. length (f i) = a"
  shows "metaSize (Some (map (\<lambda>i. (f i, v)) xs)) = length xs * (a + length v)"
  by (induction xs) (simp_all add: metaSize_def assms)

lemma length_wrapValue: "length wrapValue = 2 ^ 36 - 4"
  by (simp add: wrapValue_def)

lemma metaSize_wrapMeta: "metaSize (Some wrapMeta) = 2 ^ 64"
proof -
  have "metaSize (Some wrapMeta) = length [0..<2 ^ 28 :: nat] * (4 + length wrapValue)"
    unfolding wrapMeta_def by (rule metaSize_uniform) (simp add: wrapName_def)
  also have "\<dots> = 2 ^ 28 * 2 ^ 36"
    by (simp only: length_upt length_wrapValue) simp
  also have "\<dots> = (2 :: nat) ^ 64"
    by (simp only: power_add [symmetric]) simp
  finally show ?thesis .
qed

lemma metaBytes_wrapMeta: "metaBytes (Some wrapMeta) = 0"
  by (simp add: metaBytes_of_metaSize metaSize_wrapMeta)

lemma mod_step:
  fixes a b :: nat
  assumes "a mod n = b mod n" "a div n mod q = b div n mod q"
  shows "a mod (n * q) = b mod (n * q)"
  using assms by (simp add: mod_mult2_eq)

lemma wrapName_inj:
  assumes "i < 2 ^ 32" "j < 2 ^ 32" "wrapName i = wrapName j"
  shows "i = j"
proof -
  have eq: "char_of (i div 2 ^ 24) = (char_of (j div 2 ^ 24) :: char)"
       "char_of (i div 2 ^ 16) = (char_of (j div 2 ^ 16) :: char)"
       "char_of (i div 2 ^ 8) = (char_of (j div 2 ^ 8) :: char)"
       "char_of i = (char_of j :: char)"
    using assms(3) by (simp_all add: wrapName_def)
  have m3: "i div 2 ^ 24 mod 256 = j div 2 ^ 24 mod 256"
    using eq(1) unfolding char_of_eq_iff take_bit_eq_mod by simp
  have m2: "i div 2 ^ 16 mod 256 = j div 2 ^ 16 mod 256"
    using eq(2) unfolding char_of_eq_iff take_bit_eq_mod by simp
  have m1: "i div 2 ^ 8 mod 256 = j div 2 ^ 8 mod 256"
    using eq(3) unfolding char_of_eq_iff take_bit_eq_mod by simp
  have m0: "i mod 256 = j mod 256"
    using eq(4) unfolding char_of_eq_iff take_bit_eq_mod by simp
  have s1: "i mod 65536 = j mod 65536"
    using mod_step [of i 256 j 256] m0 m1 by simp
  have s2: "i mod 16777216 = j mod 16777216"
    using mod_step [of i 65536 j 256] s1 m2 by simp
  have s3: "i mod 4294967296 = j mod 4294967296"
    using mod_step [of i 16777216 j 256] s2 m3 by simp
  with assms(1,2) show ?thesis
    by simp
qed

lemma distinct_wrapMeta: "distinct (map fst wrapMeta)"
proof -
  have "map fst wrapMeta = map wrapName [0..<2 ^ 28]"
    by (simp add: wrapMeta_def comp_def)
  moreover have "inj_on wrapName {0..<2 ^ 28}"
  proof (rule inj_onI)
    fix i j :: nat
    assume "i \<in> {0..<2 ^ 28}" "j \<in> {0..<2 ^ 28}" "wrapName i = wrapName j"
    then show "i = j"
      using wrapName_inj [of i j] by simp
  qed
  ultimately show ?thesis
    by (simp add: distinct_map)
qed

text \<open>
  Claim C1. The claim is that \<^verbatim>\<open>StaticValidate\<close> succeeds exactly when \<^verbatim>\<open>Votes\<close> is in
  \<open>[1, 4096]\<close>, the keys and values of \<^verbatim>\<open>Meta\<close> have at most 512 bytes in total, and
  \<^verbatim>\<open>Kind\<close> is \<^verbatim>\<open>Key25519\<close>. The code does not keep the bound on the metadata: it adds
  the lengths up in a \<^verbatim>\<open>uint\<close>, which wraps around. The key \<^const>\<open>wrapKey\<close> has kind
  \<^verbatim>\<open>Key25519\<close>, one vote and a map of \<open>2 ^ 28\<close> entries with distinct names whose names and
  values have \<open>2 ^ 64\<close> bytes in total, far more than 512; the counter ends at 0 and
  \<^verbatim>\<open>StaticValidate\<close> accepts the key, against the claim and against the comment in the
  code on the upper limit of the metadata of a key.
\<close>

theorem StaticValidate_wraps:
  "StaticValidate wrapKey = Inr () \<and>
   Kind wrapKey = Key25519 \<and> Votes wrapKey = 1 \<and>
   metaSize (Meta wrapKey) = 2 ^ 64 \<and> metaBytes (Meta wrapKey) = 0 \<and>
   distinct (map fst wrapMeta) \<and> length wrapMeta = 2 ^ 28 \<and>
   length wrapValue = 2 ^ 36 - 4"
proof -
  have "StaticValidate wrapKey = Inr ()"
    by (simp add: StaticValidate_def wrapKey_def metaBytes_wrapMeta maxMetaBytes_def)
  moreover have "length wrapMeta = 2 ^ 28"
    by (simp add: wrapMeta_def)
  ultimately show ?thesis
    by (simp add: wrapKey_def metaSize_wrapMeta metaBytes_wrapMeta distinct_wrapMeta
        length_wrapValue)
qed

text \<open>
  The wrap-around is the only way in which the code leaves the description. For every key
  whose metadata has fewer than \<open>2 ^ 64\<close> bytes, \<^verbatim>\<open>StaticValidate\<close> succeeds exactly when
  \<^verbatim>\<open>Votes\<close> is in \<open>[1, 4096]\<close>, the metadata has at most 512 bytes and \<^verbatim>\<open>Kind\<close> is
  \<^verbatim>\<open>Key25519\<close>; and for every key whatever, it fails for \<^verbatim>\<open>Votes = 0\<close>, for
  \<^verbatim>\<open>Votes > 4096\<close> and for the kind \<^verbatim>\<open>KeyInvalid\<close>.
\<close>

theorem StaticValidate_iff:
  "(metaSize (Meta k) < 2 ^ 64 \<longrightarrow>
      (StaticValidate k = Inr () \<longleftrightarrow>
         1 \<le> Votes k \<and> Votes k \<le> 4096 \<and> metaSize (Meta k) \<le> 512 \<and> Kind k = Key25519)) \<and>
   (Votes k = 0 \<longrightarrow> StaticValidate k = Inl ZeroVotes) \<and>
   (Votes k > 4096 \<longrightarrow> StaticValidate k = Inl (ExcessiveKeyWeight (Votes k))) \<and>
   (Kind k = KeyInvalid \<longrightarrow> isl (StaticValidate k))"
proof -
  have votes: "1 \<le> Votes k \<longleftrightarrow> Votes k \<noteq> 0"
    by (simp add: word_le_nat_alt unat_eq_0 Suc_le_eq unat_gt_0)
  have "StaticValidate k = Inr () \<longleftrightarrow>
          1 \<le> Votes k \<and> Votes k \<le> 4096 \<and> metaSize (Meta k) \<le> 512 \<and> Kind k = Key25519"
    if "metaSize (Meta k) < 2 ^ 64"
    using metaBytes_le_iff [OF that] by (auto simp: StaticValidate_def votes not_less)
  moreover have "Votes k = 0 \<longrightarrow> StaticValidate k = Inl ZeroVotes"
    by (simp add: StaticValidate_def)
  moreover have "Votes k > 4096 \<longrightarrow> StaticValidate k = Inl (ExcessiveKeyWeight (Votes k))"
    by (simp add: StaticValidate_def)
  moreover have "Kind k = KeyInvalid \<longrightarrow> isl (StaticValidate k)"
    by (simp add: StaticValidate_def KeyInvalid_def Key25519_def)
  ultimately show ?thesis by blast
qed

theorem StaticValidate_iff_witness:
  "metaSize (Meta \<lparr>Kind = Key25519, Votes = 1, Public = Some [1, 1], Meta = Some [(''name'', ''laptop'')]\<rparr>) < 2 ^ 64
   \<and> StaticValidate \<lparr>Kind = Key25519, Votes = 1, Public = Some [1, 1], Meta = Some [(''name'', ''laptop'')]\<rparr> = Inr ()
   \<and> StaticValidate \<lparr>Kind = Key25519, Votes = 0, Public = Some [1, 1], Meta = None\<rparr> = Inl ZeroVotes
   \<and> StaticValidate \<lparr>Kind = Key25519, Votes = 4097, Public = Some [1, 1], Meta = None\<rparr>
        = Inl (ExcessiveKeyWeight 4097)
   \<and> isl (StaticValidate \<lparr>Kind = KeyInvalid, Votes = 1, Public = Some [1, 1], Meta = None\<rparr>)"
  using StaticValidate_iff [of "\<lparr>Kind = Key25519, Votes = 1, Public = Some [1, 1], Meta = Some [(''name'', ''laptop'')]\<rparr>"]
        StaticValidate_iff [of "\<lparr>Kind = Key25519, Votes = 0, Public = Some [1, 1], Meta = None\<rparr>"]
        StaticValidate_iff [of "\<lparr>Kind = Key25519, Votes = 4097, Public = Some [1, 1], Meta = None\<rparr>"]
        StaticValidate_iff [of "\<lparr>Kind = KeyInvalid, Votes = 1, Public = Some [1, 1], Meta = None\<rparr>"]
  by (simp add: metaSize_def)

text \<open>
  Claim C2, as the code has it. \<^verbatim>\<open>StaticValidate\<close> does not look at \<^verbatim>\<open>Public\<close>: a key of
  kind \<^verbatim>\<open>Key25519\<close> with a public key of two bytes passes, and the result is the same
  for every value of the field.
\<close>

theorem StaticValidate_ignores_Public:
  "StaticValidate (k\<lparr>Public := p\<rparr>) = StaticValidate k"
  by (simp add: StaticValidate_def)

text \<open>
  The claim as stated fails on a key of the repository's own test data: its public key has
  two bytes, and it passes.
\<close>

theorem StaticValidate_short_Public_counterexample:
  "length (slice_bytes (Public \<lparr>Kind = Key25519, Votes = 1, Public = Some [1, 1], Meta = None\<rparr>)) \<noteq> 32
   \<and> StaticValidate \<lparr>Kind = Key25519, Votes = 1, Public = Some [1, 1], Meta = None\<rparr> = Inr ()"
  by (simp add: StaticValidate_def metaBytes_def slice_bytes_def maxMetaBytes_def)

section \<open>Key identifiers and verifying keys\<close>

text \<open>
  Claim C3. For a key of kind \<^verbatim>\<open>Key25519\<close>, \<^verbatim>\<open>ID\<close> returns the \<^verbatim>\<open>Public\<close> bytes
  unchanged; for every other kind, \<^verbatim>\<open>KeyInvalid\<close> included, it returns an error.
\<close>

theorem Key_ID_spec:
  "(Kind k = Key25519 \<longrightarrow> ID k = Inr (Public k)) \<and>
   (Kind k \<noteq> Key25519 \<longrightarrow> ID k = Inl (UnknownKeyKind (Kind k)))"
  by (simp add: ID_def)

theorem Key_ID_spec_witness:
  "ID \<lparr>Kind = Key25519, Votes = 1, Public = Some [1, 1], Meta = None\<rparr> = Inr (Some [1, 1]) \<and>
   ID \<lparr>Kind = KeyInvalid, Votes = 1, Public = Some [1, 1], Meta = None\<rparr>
     = Inl (UnknownKeyKind KeyInvalid)"
  using Key_ID_spec [of "\<lparr>Kind = Key25519, Votes = 1, Public = Some [1, 1], Meta = None\<rparr>"]
        Key_ID_spec [of "\<lparr>Kind = KeyInvalid, Votes = 1, Public = Some [1, 1], Meta = None\<rparr>"]
  by (simp add: Key25519_def KeyInvalid_def)

text \<open>
  Claim C7. \<^verbatim>\<open>Ed25519\<close> returns an error and no key for a key whose kind is not
  \<^verbatim>\<open>Key25519\<close>, and the \<^verbatim>\<open>Public\<close> bytes for a key of kind \<^verbatim>\<open>Key25519\<close>.
\<close>

theorem Key_Ed25519_spec:
  "(Kind k \<noteq> Key25519 \<longrightarrow> Ed25519 k = Inl (NotEd25519 (Kind k))) \<and>
   (Kind k = Key25519 \<longrightarrow> Ed25519 k = Inr (Public k))"
  by (simp add: Ed25519_def)

theorem Key_Ed25519_spec_witness:
  "Ed25519 \<lparr>Kind = 2, Votes = 1, Public = Some [7], Meta = None\<rparr> = Inl (NotEd25519 2) \<and>
   Ed25519 \<lparr>Kind = Key25519, Votes = 1, Public = Some [7], Meta = None\<rparr> = Inr (Some [7])"
  using Key_Ed25519_spec [of "\<lparr>Kind = 2, Votes = 1, Public = Some [7], Meta = None\<rparr>"]
        Key_Ed25519_spec [of "\<lparr>Kind = Key25519, Votes = 1, Public = Some [7], Meta = None\<rparr>"]
  by (simp add: Key25519_def)

section \<open>Cloning a key\<close>

lemma copy_slice_replicate: "copy_slice (replicate (length p) x) p = p"
  by (simp add: copy_slice_def)

lemma update_fresh: "key \<notin> fst ` set acc \<Longrightarrow> AList.update key v acc = acc @ [(key, v)]"
  by (induction acc) auto

lemma fold_map_store_distinct:
  "distinct (map fst (acc @ m)) \<Longrightarrow>
     fold (\<lambda>(key, v) acc. map_store key v acc) m acc = acc @ m"
proof (induction m arbitrary: acc)
  case Nil
  show ?case by simp
next
  case (Cons e m)
  obtain key v where e: "e = (key, v)" by (cases e)
  from Cons.prems have fresh: "key \<notin> fst ` set acc"
    by (auto simp: e)
  from Cons.prems have "distinct (map fst ((acc @ [(key, v)]) @ m))"
    by (simp add: e)
  from Cons.IH [OF this] show ?case
    by (simp add: e map_store_def update_fresh [OF fresh])
qed

text \<open>
  Claim C8. The clone of a key is equal to the key, field for field, and \<^verbatim>\<open>Public\<close> and
  \<^verbatim>\<open>Meta\<close> are \<^verbatim>\<open>nil\<close> in the clone exactly when they are in the key. (The keys of a Go
  map are pairwise distinct.)
\<close>

theorem Clone_equal:
  assumes "\<forall>m. Meta k = Some m \<longrightarrow> distinct (map fst m)"
  shows "Clone k = k \<and>
    Kind (Clone k) = Kind k \<and> Votes (Clone k) = Votes k \<and>
    Public (Clone k) = Public k \<and> Meta (Clone k) = Meta k \<and>
    (Public (Clone k) = None \<longleftrightarrow> Public k = None) \<and>
    (Meta (Clone k) = None \<longleftrightarrow> Meta k = None)"
proof -
  have "fold (\<lambda>(key, v) acc. map_store key v acc) m [] = m" if "Meta k = Some m" for m
    using assms that fold_map_store_distinct [of "[]" m] by simp
  then have "Clone k = k"
    by (simp add: Clone_def Let_def copy_slice_replicate split: option.splits)
  then show ?thesis by simp
qed

theorem Clone_equal_witness:
  "distinct (map fst [(''b'', ''x''), (''a'', ''y'')]) \<and>
   Clone \<lparr>Kind = Key25519, Votes = 2, Public = Some [], Meta = Some [(''b'', ''x''), (''a'', ''y'')]\<rparr>
     = \<lparr>Kind = Key25519, Votes = 2, Public = Some [], Meta = Some [(''b'', ''x''), (''a'', ''y'')]\<rparr> \<and>
   Clone \<lparr>Kind = Key25519, Votes = 2, Public = None, Meta = None\<rparr>
     = \<lparr>Kind = Key25519, Votes = 2, Public = None, Meta = None\<rparr>"
  using Clone_equal [of "\<lparr>Kind = Key25519, Votes = 2, Public = Some [], Meta = Some [(''b'', ''x''), (''a'', ''y'')]\<rparr>"]
        Clone_equal [of "\<lparr>Kind = Key25519, Votes = 2, Public = None, Meta = None\<rparr>"]
  by simp

section \<open>The text form of a key kind\<close>

text \<open>
  Claim C10. \<^verbatim>\<open>UnmarshalText\<close> gives back \<^verbatim>\<open>KeyInvalid\<close> and \<^verbatim>\<open>Key25519\<close> from their
  \<^verbatim>\<open>MarshalText\<close>; every other text is an error, and so is the text \<^verbatim>\<open>Key?<n>\<close> that
  \<^verbatim>\<open>MarshalText\<close> writes for any other kind.
\<close>

theorem KeyKind_text_roundtrip:
  "(k = KeyInvalid \<or> k = Key25519 \<longrightarrow>
      and_then (KeyKind_MarshalText k) KeyKind_UnmarshalText = Inr k) \<and>
   (b \<noteq> ''invalid'' \<and> b \<noteq> ''25519'' \<longrightarrow>
      KeyKind_UnmarshalText b = Inl (UnrecognisedKeyKindText b)) \<and>
   (k \<noteq> KeyInvalid \<and> k \<noteq> Key25519 \<longrightarrow>
      KeyKind_MarshalText k = Inr (''Key?<'' @ itoa (uint k) @ ''>'') \<and>
      and_then (KeyKind_MarshalText k) KeyKind_UnmarshalText
        = Inl (UnrecognisedKeyKindText (''Key?<'' @ itoa (uint k) @ ''>'')))"
  by (auto simp: and_then_def KeyKind_MarshalText_def KeyKind_UnmarshalText_def
        KeyKind_String_def KeyInvalid_def Key25519_def)

theorem KeyKind_text_roundtrip_witness:
  "and_then (KeyKind_MarshalText Key25519) KeyKind_UnmarshalText = Inr Key25519 \<and>
   and_then (KeyKind_MarshalText KeyInvalid) KeyKind_UnmarshalText = Inr KeyInvalid \<and>
   KeyKind_UnmarshalText ''ed25519'' = Inl (UnrecognisedKeyKindText ''ed25519'') \<and>
   KeyKind_MarshalText 7 = Inr ''Key?<7>'' \<and>
   and_then (KeyKind_MarshalText 7) KeyKind_UnmarshalText = Inl (UnrecognisedKeyKindText ''Key?<7>'')"
  using KeyKind_text_roundtrip [of Key25519 "''ed25519''"]
        KeyKind_text_roundtrip [of KeyInvalid "''ed25519''"]
        KeyKind_text_roundtrip [of 7 "''ed25519''"]
  by (simp add: KeyInvalid_def Key25519_def itoa.simps digit_char_def and_then_def
        KeyKind_UnmarshalText_def KeyKind_String_def)

section \<open>Hexadecimal and JSON string literals\<close>

lemma nibble_cases:
  assumes "n < (16 :: nat)"
  obtains "n = 0" | "n = 1" | "n = 2" | "n = 3" | "n = 4" | "n = 5" | "n = 6" | "n = 7"
    | "n = 8" | "n = 9" | "n = 10" | "n = 11" | "n = 12" | "n = 13" | "n = 14" | "n = 15"
  using assms by atomize_elim presburger

lemma fromHexChar_ldigits:
  assumes "n < 16"
  shows "fromHexChar (ldigits ! n) = Some (of_nat n)"
  using assms by (elim nibble_cases) (simp_all add: fromHexChar_def ldigits_def)

lemma htmlSafe_ldigits:
  assumes "n < 16"
  shows "htmlSafe (ldigits ! n)"
  using assms by (elim nibble_cases) (simp_all add: htmlSafe_def ldigits_def dquote_def backslash_def)

lemma unat_hi_nibble: "unat (drop_bit 4 (c :: byte)) = unat c div 16"
  by (simp add: drop_bit_eq_div unat_div)

lemma unat_lo_nibble: "unat ((c :: byte) AND 0xF) = unat c mod 16"
proof -
  have "(c AND 0xF) = take_bit 4 c"
    by (simp add: take_bit_eq_mask mask_eq_exp_minus_1)
  then show ?thesis
    by (simp add: take_bit_eq_mod unat_mod)
qed

lemma hi_nibble_lt: "unat (drop_bit 4 (c :: byte)) < 16"
proof -
  have "unat c < 2 ^ 8"
    using unsigned_less [of c, where 'a = nat] by simp
  then show ?thesis
    by (simp add: unat_hi_nibble)
qed

lemma lo_nibble_lt: "unat ((c :: byte) AND 0xF) < 16"
  by (simp add: unat_lo_nibble)

lemma nibbles_join: "push_bit 4 (drop_bit 4 c) OR (c AND 0xF) = (c :: byte)"
proof -
  have "(c AND 0xF) = take_bit 4 c"
    by (simp add: take_bit_eq_mask mask_eq_exp_minus_1)
  then have "push_bit 4 (drop_bit 4 c) OR (c AND 0xF) = push_bit 4 (drop_bit 4 c) OR take_bit 4 c"
    by simp
  also have "\<dots> = c"
    by (rule bit_eqI) (auto simp: bit_simps)
  finally show ?thesis .
qed

lemma fmt_x_spec: "fmt_x bs = spec_lowercase_hex bs"
  by (simp add: fmt_x_def spec_lowercase_hex_def ldigits_def unat_hi_nibble unat_lo_nibble)

lemma hex_DecodeString_fmt_x: "hex_DecodeString (fmt_x bs) = Inr bs"
proof (induction bs)
  case Nil
  show ?case by (simp add: fmt_x_def)
next
  case (Cons c bs)
  have "fmt_x (c # bs) = ldigits ! unat (drop_bit 4 c) # ldigits ! unat (c AND 0xF) # fmt_x bs"
    by (simp add: fmt_x_def)
  then show ?case
    using Cons.IH
    by (simp add: fromHexChar_ldigits hi_nibble_lt lo_nibble_lt nibbles_join)
qed

lemma htmlSafe_fmt_x: "\<forall>c \<in> set (fmt_x bs). htmlSafe c"
  by (induction bs) (auto simp: fmt_x_def htmlSafe_ldigits hi_nibble_lt lo_nibble_lt)

lemma appendString_body_Nil: "appendString_body [] = []"
  by (subst appendString_body.simps) simp

lemma htmlSafe_ascii: "htmlSafe c \<Longrightarrow> c < CHR 0x80"
  by (simp add: htmlSafe_def less_char_def less_eq_char_def)

lemma appendString_body_safe:
  "htmlSafe c \<Longrightarrow> appendString_body (c # cs) = c # appendString_body cs"
  by (subst appendString_body.simps) (simp add: htmlSafe_ascii)

lemma appendString_body_all_safe:
  "\<forall>c \<in> set s. htmlSafe c \<Longrightarrow> appendString_body s = s"
  by (induction s) (simp_all add: appendString_body_Nil appendString_body_safe)

lemma unquote_body_Nil: "unquote_body [] = Some []"
  by (subst unquote_body.simps) simp

lemma unquote_body_plain:
  assumes "c \<noteq> backslash" "c \<noteq> dquote" "\<not> c < CHR 0x20" "c < CHR 0x80"
  shows "unquote_body (c # cs) = map_option ((#) c) (unquote_body cs)"
  using assms by (subst unquote_body.simps) simp

lemma unquote_body_safe:
  "htmlSafe c \<Longrightarrow> unquote_body (c # cs) = map_option ((#) c) (unquote_body cs)"
  by (rule unquote_body_plain) (simp_all add: htmlSafe_def less_char_def less_eq_char_def)

lemma unquote_body_all_safe:
  "\<forall>c \<in> set s. htmlSafe c \<Longrightarrow> unquote_body s = Some s"
  by (induction s) (simp_all add: unquote_body_Nil unquote_body_safe)

lemma unquote_quoted: "unquote (dquote # body @ [dquote]) = unquote_body body"
  by (simp add: unquote_def)

lemma trimSpace_quoted: "trimSpace (dquote # body @ [dquote]) = dquote # body @ [dquote]"
  by (simp add: trimSpace_def isSpace_def dquote_def)

lemma quoted_not_null: "dquote # body @ [dquote] \<noteq> ''null''"
  by (simp add: dquote_def)

lemma json_Unmarshal_string_quoted:
  "json_Unmarshal_string (dquote # body @ [dquote]) =
     (case unquote_body body of None \<Rightarrow> Inl JSONDecodeError | Some s \<Rightarrow> Inr s)"
  unfolding json_Unmarshal_string_def trimSpace_quoted Let_def unquote_quoted
  by (simp only: quoted_not_null if_False)

lemma htmlSafe_tlpub: "\<forall>c \<in> set (''tlpub:'' @ fmt_x bs). htmlSafe c"
  using htmlSafe_fmt_x [of bs] by (auto simp: htmlSafe_def dquote_def backslash_def)

lemma marshal_all_safe:
  "\<forall>c \<in> set t. htmlSafe c \<Longrightarrow> json_Marshal_string t = Inr (dquote # t @ [dquote])"
  by (simp add: json_Marshal_string_def appendString_def appendString_body_all_safe)

lemma unmarshal_all_safe:
  "\<forall>c \<in> set t. htmlSafe c \<Longrightarrow> json_Unmarshal_string (dquote # t @ [dquote]) = Inr t"
  by (simp add: json_Unmarshal_string_quoted unquote_body_all_safe)

lemma KeyID_UnmarshalJSON_tlpub:
  "KeyID_UnmarshalJSON (dquote # (''tlpub:'' @ fmt_x bs) @ [dquote]) = Inr (Some bs)"
  unfolding KeyID_UnmarshalJSON_def unmarshal_all_safe [OF htmlSafe_tlpub]
  using quoted_not_null [of "''tlpub:'' @ fmt_x bs"]
  by (simp add: strings_HasPrefix_def hex_DecodeString_fmt_x)

lemma jsonPublicKey_eq_KeyID:
  "jsonPublicKey_MarshalJSON = KeyID_MarshalJSON" "jsonPublicKey_UnmarshalJSON = KeyID_UnmarshalJSON"
  by (simp_all add: fun_eq_iff jsonPublicKey_MarshalJSON_def KeyID_MarshalJSON_def
        jsonPublicKey_UnmarshalJSON_def KeyID_UnmarshalJSON_def)

lemma KeyID_MarshalJSON_nonempty:
  "slice_bytes k \<noteq> [] \<Longrightarrow>
     KeyID_MarshalJSON k = Inr (dquote # (''tlpub:'' @ fmt_x (slice_bytes k)) @ [dquote])"
  unfolding KeyID_MarshalJSON_def marshal_all_safe [OF htmlSafe_tlpub] by simp

lemma KeyID_MarshalJSON_empty:
  "slice_bytes k = [] \<Longrightarrow> KeyID_MarshalJSON k = Inr ''null''"
  by (simp add: KeyID_MarshalJSON_def)

lemma KeyID_roundtrip:
  "and_then (KeyID_MarshalJSON k) KeyID_UnmarshalJSON = Inr (Some (slice_bytes k))"
proof (cases "slice_bytes k = []")
  case True
  then show ?thesis
    by (simp add: KeyID_MarshalJSON_empty and_then_def KeyID_UnmarshalJSON_def)
next
  case False
  show ?thesis
    unfolding KeyID_MarshalJSON_nonempty [OF False] and_then_def
    by (simp only: sum.case KeyID_UnmarshalJSON_tlpub)
qed

text \<open>
  Claim C5. The JSON form of a key identifier that is not empty, and of a public key that
  is not empty, is the string \<^verbatim>\<open>tlpub:\<close> followed by the lowercase hexadecimal encoding
  of the bytes (as a JSON string literal, in which no character of it is escaped); an empty
  or \<^verbatim>\<open>nil\<close> value is the JSON \<^verbatim>\<open>null\<close>.
\<close>

theorem key_identifier_text_form:
  "(slice_bytes k \<noteq> [] \<longrightarrow>
      KeyID_MarshalJSON k
        = Inr ([dquote] @ ''tlpub:'' @ spec_lowercase_hex (slice_bytes k) @ [dquote]) \<and>
      jsonPublicKey_MarshalJSON k
        = Inr ([dquote] @ ''tlpub:'' @ spec_lowercase_hex (slice_bytes k) @ [dquote]) \<and>
      unquote ([dquote] @ ''tlpub:'' @ spec_lowercase_hex (slice_bytes k) @ [dquote])
        = Some (''tlpub:'' @ spec_lowercase_hex (slice_bytes k))) \<and>
   (slice_bytes k = [] \<longrightarrow>
      KeyID_MarshalJSON k = Inr ''null'' \<and> jsonPublicKey_MarshalJSON k = Inr ''null'')"
proof -
  have "unquote (dquote # (''tlpub:'' @ fmt_x (slice_bytes k)) @ [dquote])
          = Some (''tlpub:'' @ fmt_x (slice_bytes k))"
    using unquote_body_all_safe [OF htmlSafe_tlpub] by (simp only: unquote_quoted)
  then show ?thesis
    by (simp add: jsonPublicKey_eq_KeyID KeyID_MarshalJSON_nonempty KeyID_MarshalJSON_empty
          fmt_x_spec)
qed

theorem key_identifier_text_form_witness:
  "KeyID_MarshalJSON (Some [3, 0xAB]) = Inr ([dquote] @ ''tlpub:03ab'' @ [dquote]) \<and>
   jsonPublicKey_MarshalJSON (Some [3, 0xAB]) = Inr ([dquote] @ ''tlpub:03ab'' @ [dquote]) \<and>
   KeyID_MarshalJSON (Some []) = Inr ''null'' \<and>
   KeyID_MarshalJSON None = Inr ''null'' \<and>
   jsonPublicKey_MarshalJSON None = Inr ''null''"
  using key_identifier_text_form [of "Some [3, 0xAB]"] key_identifier_text_form [of "Some []"]
    key_identifier_text_form [of None]
  by (simp add: slice_bytes_def spec_lowercase_hex_def)

section \<open>The JSON round trip of keys\<close>

subsection \<open>Decimal numbers\<close>

lemma digit_cases:
  assumes "d < (10 :: nat)"
  obtains "d = 0" | "d = 1" | "d = 2" | "d = 3" | "d = 4" | "d = 5" | "d = 6" | "d = 7"
    | "d = 8" | "d = 9"
  using assms by atomize_elim presburger

lemma digit_char_range:
  assumes "d < 10"
  shows "CHR ''0'' \<le> digit_char d \<and> digit_char d \<le> CHR ''9''"
  using assms by (elim digit_cases) (simp_all add: digit_char_def)

lemma digit_char_value:
  assumes "d < 10"
  shows "(of_char (digit_char d) :: int) - of_char CHR ''0'' = int d"
  using assms by (elim digit_cases) (simp_all add: digit_char_def)

lemma digit_char_zero:
  assumes "d < 10" "digit_char d = CHR ''0''"
  shows "d = 0"
  using assms by (elim digit_cases) (simp_all add: digit_char_def)

lemma itoa_small: "n < 10 \<Longrightarrow> itoa n = [digit_char (nat n)]"
  by (subst itoa.simps) simp

lemma itoa_large: "\<not> n < 10 \<Longrightarrow> itoa n = itoa (n div 10) @ [digit_char (nat (n mod 10))]"
  by (subst itoa.simps) simp

lemma itoa_not_Nil: "itoa n \<noteq> []"
  by (cases "n < 10") (simp_all add: itoa_small itoa_large)

lemma itoa_digits:
  "0 \<le> n \<Longrightarrow> list_all (\<lambda>c. CHR ''0'' \<le> c \<and> c \<le> CHR ''9'') (itoa n)"
proof (induction n rule: itoa.induct)
  case (1 n)
  show ?case
  proof (cases "n < 10")
    case True
    with "1.prems" have "nat n < 10" by simp
    then show ?thesis
      using True by (simp add: itoa_small digit_char_range)
  next
    case False
    have "nat (n mod 10) < 10" by simp
    with False "1.IH" show ?thesis
      by (simp add: itoa_large digit_char_range)
  qed
qed

lemma atoi_snoc: "atoi (xs @ [c]) = atoi xs * 10 + (of_char c - of_char CHR ''0'')"
  by (simp add: atoi_def)

lemma atoi_itoa: "0 \<le> n \<Longrightarrow> atoi (itoa n) = n"
proof (induction n rule: itoa.induct)
  case (1 n)
  show ?case
  proof (cases "n < 10")
    case True
    with "1.prems" have "nat n < 10" by simp
    from digit_char_value [OF this] show ?thesis
      using True "1.prems" by (simp add: itoa_small atoi_def)
  next
    case False
    have "nat (n mod 10) < 10" by simp
    from digit_char_value [OF this] have "of_char (digit_char (nat (n mod 10))) - of_char CHR ''0'' = n mod 10"
      by simp
    moreover from False "1.IH" have "atoi (itoa (n div 10)) = n div 10"
      by simp
    moreover have "atoi (itoa n)
        = atoi (itoa (n div 10)) * 10 + (of_char (digit_char (nat (n mod 10))) - of_char CHR ''0'')"
      by (simp only: itoa_large [OF False] atoi_snoc)
    ultimately show ?thesis
      by simp
  qed
qed

lemma itoa_no_leading_zero: "0 < n \<Longrightarrow> hd (itoa n) \<noteq> CHR ''0''"
proof (induction n rule: itoa.induct)
  case (1 n)
  show ?case
  proof (cases "n < 10")
    case True
    with "1.prems" have "nat n < 10" "nat n \<noteq> 0" by simp_all
    then show ?thesis
      using True digit_char_zero [of "nat n"] by (auto simp: itoa_small)
  next
    case False
    then have "0 < n div 10" by simp
    with False "1.IH" have "hd (itoa (n div 10)) \<noteq> CHR ''0''" by simp
    then show ?thesis
      using False by (simp add: itoa_large itoa_not_Nil)
  qed
qed

lemma itoa_zero: "itoa 0 = ''0''"
  by (simp add: itoa_small digit_char_def)

lemma decode_uint_itoa: "decode_uint (itoa (uint (v :: uint))) = Some v"
proof -
  have nonneg: "0 \<le> uint v" by simp
  have bound: "uint v < 2 ^ 64"
    using uint_lt2p [of v] by simp
  have lead: "hd (itoa (uint v)) = CHR ''0'' \<longrightarrow> length (itoa (uint v)) = 1"
  proof (cases "uint v = 0")
    case True
    then show ?thesis by (simp add: itoa_zero)
  next
    case False
    with nonneg have "0 < uint v" by linarith
    from itoa_no_leading_zero [OF this] show ?thesis by simp
  qed
  show ?thesis
    unfolding decode_uint_def atoi_itoa [OF nonneg]
    using itoa_digits [OF nonneg] lead bound by (simp add: itoa_not_Nil)
qed

subsection \<open>String literals: what the decoder makes of the encoder's escapes\<close>

lemma utf8_size_le: "utf8_size s \<le> length s"
  by (cases s) (auto split: list.splits)

lemma utf8_size_ascii: "c < CHR 0x80 \<Longrightarrow> utf8_size (c # cs) = 1"
  by simp

lemma utf8_size_prefix:
  assumes "utf8_size s = n" "0 < n"
  shows "utf8_size (take n s @ x) = n"
proof (cases s)
  case Nil
  with assms show ?thesis by simp
next
  case (Cons c cs)
  show ?thesis
    using assms unfolding Cons
    by (auto split: if_splits list.splits)
qed

lemma utf8_ValidString_Nil: "utf8_ValidString []"
  by (subst utf8_ValidString.simps) simp

lemma utf8_ValidString_Cons:
  "utf8_ValidString (c # cs) \<longleftrightarrow>
     utf8_size (c # cs) \<noteq> 0 \<and> utf8_ValidString (drop (utf8_size (c # cs)) (c # cs))"
  by (subst utf8_ValidString.simps) simp

lemma utf8_ValidString_ascii:
  "c < CHR 0x80 \<Longrightarrow> utf8_ValidString (c # cs) \<longleftrightarrow> utf8_ValidString cs"
  by (simp add: utf8_ValidString_Cons)

lemma appendString_body_ascii:
  "c < CHR 0x80 \<Longrightarrow>
     appendString_body (c # cs) = (if htmlSafe c then [c] else escape_byte c) @ appendString_body cs"
  by (subst appendString_body.simps) simp

lemma appendString_body_multibyte:
  assumes "\<not> c < CHR 0x80" "utf8_size (c # cs) = n" "0 < n"
  shows "appendString_body (c # cs) =
     (if take n (c # cs) = [CHR 0xE2, CHR 0x80, CHR 0xA8] then [backslash] @ ''u2028''
      else if take n (c # cs) = [CHR 0xE2, CHR 0x80, CHR 0xA9] then [backslash] @ ''u2029''
      else take n (c # cs)) @ appendString_body (drop n (c # cs))"
  using assms by (subst appendString_body.simps) (simp del: utf8_size.simps)

lemma special_chars:
  "dquote \<noteq> backslash" "backslash \<noteq> dquote"
  "\<not> backslash < CHR 0x20" "backslash < CHR 0x80" "\<not> dquote < CHR 0x20" "dquote < CHR 0x80"
  by (simp_all add: dquote_def backslash_def)

lemma unquote_body_escaped_same:
  assumes "e = dquote \<or> e = backslash \<or> e = CHR ''/''"
  shows "unquote_body (backslash # e # rest) = map_option ((#) e) (unquote_body rest)"
  using assms by (subst unquote_body.simps) auto

lemma unquote_body_escaped_letter:
  "unquote_body (backslash # CHR ''b'' # rest) = map_option ((#) (CHR 0x08)) (unquote_body rest)"
  "unquote_body (backslash # CHR ''f'' # rest) = map_option ((#) (CHR 0x0C)) (unquote_body rest)"
  "unquote_body (backslash # CHR ''n'' # rest) = map_option ((#) (CHR 0x0A)) (unquote_body rest)"
  "unquote_body (backslash # CHR ''r'' # rest) = map_option ((#) (CHR 0x0D)) (unquote_body rest)"
  "unquote_body (backslash # CHR ''t'' # rest) = map_option ((#) (CHR 0x09)) (unquote_body rest)"
  by (subst unquote_body.simps, simp add: dquote_def backslash_def)+

lemma unquote_body_escaped_u:
  assumes "getu4 (backslash # CHR ''u'' # rest) = Some rr" "\<not> utf16_IsSurrogate rr"
  shows "unquote_body (backslash # CHR ''u'' # rest)
           = map_option ((@) (utf8_EncodeRune rr)) (unquote_body (drop 4 rest))"
  using assms by (subst unquote_body.simps) (simp add: dquote_def backslash_def)

lemma unquote_body_multibyte:
  assumes "\<not> c < CHR 0x80" "utf8_size (c # cs) = n" "0 < n"
  shows "unquote_body (c # cs)
           = map_option ((@) (take n (c # cs))) (unquote_body (drop n (c # cs)))"
proof -
  from assms(1) have "c \<noteq> backslash" "c \<noteq> dquote" "\<not> c < CHR 0x20"
    by (auto simp: dquote_def backslash_def less_char_def)
  with assms show ?thesis
    by (subst unquote_body.simps) (simp del: utf8_size.simps)
qed

lemma hexval_ldigits:
  assumes "d < 16"
  shows "hexval (ldigits ! d) = Some (int d)"
  using assms by (elim nibble_cases) (simp_all add: hexval_def ldigits_def)

lemma getu4_00:
  assumes "n < 256"
  shows "getu4 (backslash # CHR ''u'' # CHR ''0'' # CHR ''0'' # ldigits ! (n div 16)
                  # ldigits ! (n mod 16) # x) = Some (int n)"
proof -
  from assms have hi: "hexval (ldigits ! (n div 16)) = Some (int (n div 16))"
    by (intro hexval_ldigits) simp
  have lo: "hexval (ldigits ! (n mod 16)) = Some (int (n mod 16))"
    by (intro hexval_ldigits) simp
  have zero: "hexval CHR ''0'' = Some 0"
    by (simp add: hexval_def)
  have "int (n div 16) * 16 + int (n mod 16) = int n"
    by (simp add: zdiv_int zmod_int)
  then show ?thesis
    by (simp add: getu4_def hi lo zero)
qed

lemma utf8_EncodeRune_ascii: "c < CHR 0x80 \<Longrightarrow> utf8_EncodeRune (int (of_char c)) = [c]"
proof -
  assume "c < CHR 0x80"
  then have "int (of_char c) < 0x80"
    by (simp add: less_char_def)
  moreover have "char_of (int (of_char c)) = c"
    by simp
  ultimately show ?thesis
    by (simp add: utf8_EncodeRune_def)
qed

lemma unquote_body_escape_byte:
  assumes "c < CHR 0x80"
  shows "unquote_body (escape_byte c @ x) = map_option ((#) c) (unquote_body x)"
proof -
  have n: "(of_char c :: nat) < 256" "\<not> utf16_IsSurrogate (int (of_char c))"
    using assms by (simp_all add: less_char_def utf16_IsSurrogate_def)
  consider "c = backslash \<or> c = dquote" | "c = CHR 0x08" | "c = CHR 0x0C" | "c = CHR 0x0A"
    | "c = CHR 0x0D" | "c = CHR 0x09"
    | "c \<noteq> backslash" "c \<noteq> dquote" "c \<noteq> CHR 0x08" "c \<noteq> CHR 0x0C" "c \<noteq> CHR 0x0A"
      "c \<noteq> CHR 0x0D" "c \<noteq> CHR 0x09"
    by blast
  then show ?thesis
  proof cases
    case 1
    then show ?thesis
      by (auto simp: escape_byte_def unquote_body_escaped_same)
  next
    case 7
    then have "escape_byte c @ x = backslash # CHR ''u'' # CHR ''0'' # CHR ''0''
        # ldigits ! (of_char c div 16) # ldigits ! (of_char c mod 16) # x"
      by (simp add: escape_byte_def)
    moreover have "(@) [c] = (#) c"
      by (simp add: fun_eq_iff)
    ultimately show ?thesis
      using unquote_body_escaped_u [OF getu4_00 [OF n(1)] n(2)]
      by (simp add: utf8_EncodeRune_ascii [OF assms])
  qed (simp_all add: escape_byte_def unquote_body_escaped_letter [unfolded backslash_def]
         dquote_def backslash_def)
qed

lemma unquote_body_encoded_ascii:
  assumes "c < CHR 0x80"
  shows "unquote_body ((if htmlSafe c then [c] else escape_byte c) @ x)
           = map_option ((#) c) (unquote_body x)"
  using unquote_body_escape_byte [OF assms] by (simp add: unquote_body_safe)

lemma unquote_body_multibyte':
  assumes "s \<noteq> []" "\<not> hd s < CHR 0x80" "utf8_size s = n" "0 < n"
  shows "unquote_body s = map_option ((@) (take n s)) (unquote_body (drop n s))"
  using assms unquote_body_multibyte [of "hd s" "tl s" n] by (cases s) simp_all

lemma EncodeRune_2028: "utf8_EncodeRune 0x2028 = [CHR 0xE2, CHR 0x80, CHR 0xA8]"
  by code_simp

lemma EncodeRune_2029: "utf8_EncodeRune 0x2029 = [CHR 0xE2, CHR 0x80, CHR 0xA9]"
  by code_simp

lemma getu4_2028:
  "getu4 (backslash # CHR ''u'' # CHR ''2'' # CHR ''0'' # CHR ''2'' # CHR ''8'' # x) = Some 0x2028"
  "getu4 (backslash # CHR ''u'' # CHR ''2'' # CHR ''0'' # CHR ''2'' # CHR ''9'' # x) = Some 0x2029"
  by (simp_all add: getu4_def hexval_def)

lemma unquote_body_separators:
  "unquote_body (backslash # CHR ''u'' # CHR ''2'' # CHR ''0'' # CHR ''2'' # CHR ''8'' # x)
     = map_option ((@) [CHR 0xE2, CHR 0x80, CHR 0xA8]) (unquote_body x)"
  "unquote_body (backslash # CHR ''u'' # CHR ''2'' # CHR ''0'' # CHR ''2'' # CHR ''9'' # x)
     = map_option ((@) [CHR 0xE2, CHR 0x80, CHR 0xA9]) (unquote_body x)"
  using unquote_body_escaped_u [OF getu4_2028(1), of x] unquote_body_escaped_u [OF getu4_2028(2), of x]
  by (simp_all add: utf16_IsSurrogate_def EncodeRune_2028 EncodeRune_2029)

lemma unquote_body_appendString_body:
  "utf8_ValidString s \<Longrightarrow> unquote_body (appendString_body s) = Some s"
proof (induction "length s" arbitrary: s rule: less_induct)
  case less
  show ?case
  proof (cases s)
    case Nil
    then show ?thesis
      by (simp add: appendString_body_Nil unquote_body_Nil)
  next
    case (Cons c cs)
    show ?thesis
    proof (cases "c < CHR 0x80")
      case True
      from less.prems have "utf8_ValidString cs"
        by (simp add: Cons utf8_ValidString_ascii [OF True])
      with less.hyps [of cs] have "unquote_body (appendString_body cs) = Some cs"
        by (simp add: Cons)
      then show ?thesis
        unfolding Cons appendString_body_ascii [OF True] unquote_body_encoded_ascii [OF True]
        by simp
    next
      case False
      define n where "n = utf8_size s"
      from less.prems have n: "0 < n" and rest: "utf8_ValidString (drop n s)"
        unfolding n_def Cons by (simp_all add: utf8_ValidString_Cons del: utf8_size.simps)
      have size: "utf8_size (c # cs) = n"
        by (simp add: n_def Cons)
      have len: "n \<le> length s"
        unfolding n_def by (rule utf8_size_le)
      from n have "length (drop n s) < length s"
        by (simp add: Cons)
      from less.hyps [OF this rest]
      have IH: "unquote_body (appendString_body (drop n s)) = Some (drop n s)" .
      let ?x = "appendString_body (drop n s)"
      have plain: "unquote_body (take n s @ ?x) = Some s"
      proof -
        have "take n s @ ?x \<noteq> []" "\<not> hd (take n s @ ?x) < CHR 0x80"
          using n False by (simp_all add: Cons take_Cons')
        moreover have "utf8_size (take n s @ ?x) = n"
          using utf8_size_prefix [of s n] n by (simp add: n_def)
        ultimately have "unquote_body (take n s @ ?x)
            = map_option ((@) (take n (take n s @ ?x))) (unquote_body (drop n (take n s @ ?x)))"
          using n by (rule unquote_body_multibyte')
        with len IH show ?thesis
          by simp
      qed
      have enc: "appendString_body s =
         (if take n s = [CHR 0xE2, CHR 0x80, CHR 0xA8] then [backslash] @ ''u2028''
          else if take n s = [CHR 0xE2, CHR 0x80, CHR 0xA9] then [backslash] @ ''u2029''
          else take n s) @ ?x"
        unfolding Cons by (rule appendString_body_multibyte [OF False size n])
      consider "take n s = [CHR 0xE2, CHR 0x80, CHR 0xA8]"
        | "take n s = [CHR 0xE2, CHR 0x80, CHR 0xA9]"
        | "take n s \<noteq> [CHR 0xE2, CHR 0x80, CHR 0xA8]" "take n s \<noteq> [CHR 0xE2, CHR 0x80, CHR 0xA9]"
        by blast
      then show ?thesis
      proof cases
        case 1
        have "s = take n s @ drop n s" by simp
        then have s: "s = [CHR 0xE2, CHR 0x80, CHR 0xA8] @ drop n s"
          by (simp only: 1)
        have "unquote_body (appendString_body s)
            = map_option ((@) [CHR 0xE2, CHR 0x80, CHR 0xA8]) (unquote_body ?x)"
          unfolding enc by (simp add: 1 unquote_body_separators)
        with IH s show ?thesis
          by simp
      next
        case 2
        have "s = take n s @ drop n s" by simp
        then have s: "s = [CHR 0xE2, CHR 0x80, CHR 0xA9] @ drop n s"
          by (simp only: 2)
        have "take n s \<noteq> [CHR 0xE2, CHR 0x80, CHR 0xA8]"
          by (simp add: 2)
        then have "unquote_body (appendString_body s)
            = map_option ((@) [CHR 0xE2, CHR 0x80, CHR 0xA9]) (unquote_body ?x)"
          unfolding enc by (simp add: 2 unquote_body_separators)
        with IH s show ?thesis
          by simp
      next
        case 3
        then have "appendString_body s = take n s @ ?x"
          unfolding enc by simp
        with plain show ?thesis
          by simp
      qed
    qed
  qed
qed

subsection \<open>Maps and the fields of a key\<close>

lemma unquote_appendString: "utf8_ValidString s \<Longrightarrow> unquote (appendString s) = Some s"
  by (simp add: appendString_def unquote_quoted unquote_body_appendString_body)

lemma htmlSafe_valid: "\<forall>c \<in> set s. htmlSafe c \<Longrightarrow> utf8_ValidString s"
  by (induction s) (simp_all add: utf8_ValidString_Nil utf8_ValidString_ascii htmlSafe_ascii)

lemma appendString_not_null: "appendString s \<noteq> ''null''"
  by (simp add: appendString_def dquote_def)

lemma distinct_keys_sort_key:
  "distinct (map fst es) \<Longrightarrow> distinct (map fst (sort_key fst es))"
  by (simp add: distinct_map)

lemma map_of_sort_key:
  assumes "distinct (map fst es)"
  shows "map_of (sort_key fst es) = map_of es"
  using assms distinct_keys_sort_key [OF assms]
  by (simp add: map_of_inject_set)

lemma decode_map_members_encoded:
  assumes "\<forall>(key, v) \<in> set es. utf8_ValidString key \<and> utf8_ValidString v"
  shows "decode_map_members (map (\<lambda>(key, v). (appendString key, Scalar (appendString v))) es) m
           = Inr (fold (\<lambda>(key, v) acc. map_store key v acc) es m)"
  using assms
proof (induction es arbitrary: m)
  case Nil
  show ?case by simp
next
  case (Cons e es)
  obtain key v where e: "e = (key, v)" by (cases e)
  from Cons.prems have valid: "utf8_ValidString key" "utf8_ValidString v"
    and rest: "\<forall>(key, v) \<in> set es. utf8_ValidString key \<and> utf8_ValidString v"
    by (simp_all add: e)
  show ?case
    by (simp add: e unquote_appendString [OF valid(1)] unquote_appendString [OF valid(2)]
          appendString_not_null Cons.IH [OF rest])
qed

lemma decode_Meta_marshal_map:
  assumes "\<forall>es. m = Some es \<longrightarrow>
             distinct (map fst es) \<and> (\<forall>(key, v) \<in> set es. utf8_ValidString key \<and> utf8_ValidString v)"
  shows "decode_field ''Meta'' (marshal_map m) (k\<lparr>Meta := None\<rparr>)
           = Inr (k\<lparr>Meta := map_option (sort_key fst) m\<rparr>)"
proof (cases m)
  case None
  then show ?thesis
    by (simp add: decode_field_def lookupField_def fieldNames_def marshal_map_def)
next
  case (Some es)
  with assms have d: "distinct (map fst ([] @ sort_key fst es))"
    and v: "\<forall>(key, v) \<in> set (sort_key fst es). utf8_ValidString key \<and> utf8_ValidString v"
    by (simp_all add: distinct_keys_sort_key)
  show ?thesis
    by (simp add: decode_field_def lookupField_def fieldNames_def marshal_map_def Some
          decode_map_members_encoded [OF v] fold_map_store_distinct [OF d])
qed

lemma valid_field_names:
  "utf8_ValidString ''Kind''" "utf8_ValidString ''Votes''" "utf8_ValidString ''Public''"
  "utf8_ValidString ''Meta''" "utf8_ValidString ''invalid''" "utf8_ValidString ''25519''"
  by (rule htmlSafe_valid, simp add: htmlSafe_def dquote_def backslash_def)+

lemma decode_Kind:
  assumes "Kind k = KeyInvalid \<or> Kind k = Key25519"
  shows "decode_field ''Kind'' (Scalar (appendString (KeyKind_String (Kind k)))) k' 
           = Inr (k'\<lparr>Kind := Kind k\<rparr>)"
proof -
  have "utf8_ValidString (KeyKind_String (Kind k))"
    using assms by (auto simp: KeyKind_String_def valid_field_names KeyInvalid_def Key25519_def)
  from unquote_appendString [OF this]
  show ?thesis
    using assms
    by (auto simp: decode_field_def lookupField_def fieldNames_def appendString_not_null
          KeyKind_UnmarshalText_def KeyKind_String_def KeyInvalid_def Key25519_def)
qed

lemma digits_not_null:
  "list_all (\<lambda>c. CHR ''0'' \<le> c \<and> c \<le> CHR ''9'') t \<Longrightarrow> t \<noteq> ''null''"
  by auto

lemma decode_Votes:
  "decode_field ''Votes'' (Scalar (itoa (uint v))) k' = Inr (k'\<lparr>Votes := v\<rparr>)"
proof -
  have "itoa (uint v) \<noteq> ''null''"
    by (rule digits_not_null) (simp add: itoa_digits)
  then show ?thesis
    by (simp add: decode_field_def lookupField_def fieldNames_def decode_uint_itoa)
qed

lemma decode_Public:
  assumes "jsonPublicKey_MarshalJSON p = Inr t"
  shows "decode_field ''Public'' (Scalar t) k' = Inr (k'\<lparr>Public := Some (slice_bytes p)\<rparr>)"
proof -
  from KeyID_roundtrip [of p] assms
  have "jsonPublicKey_UnmarshalJSON t = Inr (Some (slice_bytes p))"
    by (simp add: jsonPublicKey_eq_KeyID and_then_def)
  then show ?thesis
    by (simp add: decode_field_def lookupField_def fieldNames_def)
qed

lemma jsonPublicKey_MarshalJSON_total: "\<exists>t. jsonPublicKey_MarshalJSON p = Inr t"
  by (simp add: jsonPublicKey_MarshalJSON_def json_Marshal_string_def)

lemma struct_roundtrip:
  assumes kind: "Kind k = KeyInvalid \<or> Kind k = Key25519"
    and meta: "\<forall>es. Meta k = Some es \<longrightarrow>
             distinct (map fst es) \<and> (\<forall>(key, v) \<in> set es. utf8_ValidString key \<and> utf8_ValidString v)"
  shows "and_then (marshal_struct k) unmarshal_struct
           = Inr \<lparr>Kind = Kind k, Votes = Votes k, Public = Some (slice_bytes (Public k)),
                  Meta = map_option (sort_key fst) (Meta k)\<rparr>"
proof -
  obtain t where t: "jsonPublicKey_MarshalJSON (Public k) = Inr t"
    using jsonPublicKey_MarshalJSON_total by blast
  have enc: "marshal_struct k = Inr (Object
      [(appendString ''Kind'', Scalar (appendString (KeyKind_String (Kind k)))),
       (appendString ''Votes'', Scalar (itoa (uint (Votes k)))),
       (appendString ''Public'', Scalar t),
       (appendString ''Meta'', marshal_map (Meta k))])"
    by (simp add: marshal_struct_def KeyKind_MarshalText_def t)
  have "decode_field ''Meta'' (marshal_map (Meta k))
          (zeroKey\<lparr>Kind := Kind k, Votes := Votes k, Public := Some (slice_bytes (Public k))\<rparr>)
        = Inr (zeroKey\<lparr>Kind := Kind k, Votes := Votes k, Public := Some (slice_bytes (Public k)),
                 Meta := map_option (sort_key fst) (Meta k)\<rparr>)"
    using decode_Meta_marshal_map [OF meta,
        of "zeroKey\<lparr>Kind := Kind k, Votes := Votes k, Public := Some (slice_bytes (Public k))\<rparr>"]
    by (simp add: zeroKey_def)
  then show ?thesis
    unfolding enc and_then_def
    by (simp add: unmarshal_struct_def unquote_appendString valid_field_names
          decode_Kind [OF kind] decode_Votes decode_Public [OF t] zeroKey_def)
qed

subsection \<open>Scanning the string literals that the encoder writes\<close>

lemma scannable_Nil: "scannable []"
  by (simp add: scannable_def option.map_ident split_def)

lemma scannable_append: "scannable a \<Longrightarrow> scannable b \<Longrightarrow> scannable (a @ b)"
  by (simp add: scannable_def option.map_comp comp_def split_def)

lemma scannable_plain_char:
  assumes "c \<noteq> dquote" "c \<noteq> backslash"
  shows "scannable [c]"
  unfolding scannable_def
proof
  fix x
  show "scan_string_body ([c] @ x) = map_option (\<lambda>(b, rest). ([c] @ b, rest)) (scan_string_body x)"
    using assms by (cases x) simp_all
qed

lemma scannable_escape: "scannable [backslash, e]"
  by (simp add: scannable_def special_chars)

lemma scannable_plain:
  "\<forall>c \<in> set t. c \<noteq> dquote \<and> c \<noteq> backslash \<Longrightarrow> scannable t"
proof (induction t)
  case Nil
  show ?case by (rule scannable_Nil)
next
  case (Cons c t)
  then have "scannable ([c] @ t)"
    by (intro scannable_append scannable_plain_char) simp_all
  then show ?case by simp
qed

lemma scannable_escaped_plain:
  "\<forall>c \<in> set t. c \<noteq> dquote \<and> c \<noteq> backslash \<Longrightarrow> scannable (backslash # e # t)"
  using scannable_append [OF scannable_escape [of e] scannable_plain [of t]] by simp

lemma htmlSafe_plain: "htmlSafe c \<Longrightarrow> c \<noteq> dquote \<and> c \<noteq> backslash"
  by (simp add: htmlSafe_def)

lemma scannable_escape_byte: "scannable (escape_byte c)"
proof -
  have "(of_char c :: nat) < 256"
    by simp
  then have "(of_char c :: nat) div 16 < 16" "(of_char c :: nat) mod 16 < 16"
    by presburger+
  then have "htmlSafe (ldigits ! (of_char c div 16))" "htmlSafe (ldigits ! (of_char c mod 16))"
    by (simp_all add: htmlSafe_ldigits)
  then have "scannable (backslash # CHR ''u'' #
      [CHR ''0'', CHR ''0'', ldigits ! (of_char c div 16), ldigits ! (of_char c mod 16)])"
    by (intro scannable_escaped_plain) (auto dest: htmlSafe_plain simp: dquote_def backslash_def)
  then show ?thesis
    using scannable_escape by (simp add: escape_byte_def)
qed

lemma appendString_body_invalid:
  assumes "\<not> c < CHR 0x80" "utf8_size (c # cs) = 0"
  shows "appendString_body (c # cs) = backslash # ''ufffd'' @ appendString_body cs"
  using assms by (subst appendString_body.simps) (simp del: utf8_size.simps)

lemma utf8_size_bytes:
  assumes "utf8_size (c # cs) = n" "\<not> c < CHR 0x80"
  shows "\<forall>b \<in> set (take n (c # cs)). \<not> b < CHR 0x80"
  using assms
  by (auto simp: in_range_def take_Cons' less_char_def less_eq_char_def
        split: if_splits list.splits)

lemma scannable_appendString_body: "scannable (appendString_body s)"
proof (induction "length s" arbitrary: s rule: less_induct)
  case less
  show ?case
  proof (cases s)
    case Nil
    then show ?thesis
      by (simp add: appendString_body_Nil scannable_Nil)
  next
    case (Cons c cs)
    have IH: "scannable (appendString_body cs)"
      using less [of cs] by (simp add: Cons)
    show ?thesis
    proof (cases "c < CHR 0x80")
      case True
      have "scannable (if htmlSafe c then [c] else escape_byte c)"
        using htmlSafe_plain [of c] by (simp add: scannable_plain_char scannable_escape_byte)
      then show ?thesis
        unfolding Cons appendString_body_ascii [OF True] using IH by (rule scannable_append)
    next
      case False
      define n where "n = utf8_size (c # cs)"
      show ?thesis
      proof (cases "n = 0")
        case True
        have "scannable (backslash # CHR ''u'' # ''fffd'')"
          by (rule scannable_escaped_plain) (simp add: dquote_def backslash_def)
        from scannable_append [OF this IH] show ?thesis
          unfolding Cons using appendString_body_invalid [OF False, of cs] True
          by (simp add: n_def)
      next
        case pos: False
        then have n: "0 < n" by simp
        have size: "utf8_size (c # cs) = n"
          by (simp add: n_def)
        have "length (drop n (c # cs)) < length s"
          using n by (simp add: Cons)
        from less [OF this] have rest: "scannable (appendString_body (drop n (c # cs)))" .
        have "\<forall>b \<in> set (take n (c # cs)). b \<noteq> dquote \<and> b \<noteq> backslash"
          using utf8_size_bytes [OF size False] special_chars by auto
        then have bytes: "scannable (take n (c # cs))"
          by (rule scannable_plain)
        have sep: "scannable ([backslash] @ ''u2028'')" "scannable ([backslash] @ ''u2029'')"
          using scannable_escaped_plain [of "''2028''" "CHR ''u''"]
            scannable_escaped_plain [of "''2029''" "CHR ''u''"]
          by (simp_all add: dquote_def backslash_def)
        have "scannable
           (if take n (c # cs) = [CHR 0xE2, CHR 0x80, CHR 0xA8] then [backslash] @ ''u2028''
            else if take n (c # cs) = [CHR 0xE2, CHR 0x80, CHR 0xA9] then [backslash] @ ''u2029''
            else take n (c # cs))"
          using bytes sep by simp
        then show ?thesis
          unfolding Cons appendString_body_multibyte [OF False size n]
          using rest by (rule scannable_append)
      qed
    qed
  qed
qed

lemma scan_string_body_closing: "scan_string_body (dquote # r) = Some ([dquote], r)"
  by (cases r) simp_all

lemma scan_string_body_appendString:
  "scan_string_body (appendString_body s @ dquote # r) = Some (appendString_body s @ [dquote], r)"
  using scannable_appendString_body [of s]
  by (simp add: scannable_def scan_string_body_closing)

lemma scan_scalar_appendString:
  assumes "utf8_ValidString s"
  shows "scan_scalar (appendString s @ r) = Some (appendString s, r)"
proof -
  have "unquote (dquote # appendString_body s @ [dquote]) = Some s"
    using unquote_appendString [OF assms] by (simp add: appendString_def)
  then show ?thesis
    by (simp add: scan_scalar_def appendString_def scan_string_body_appendString)
qed

subsection \<open>Reading back the scalars and objects that the encoder writes\<close>

lemma takeWhile_token:
  assumes "\<forall>c \<in> set t. P c" "case r of [] \<Rightarrow> True | c # _ \<Rightarrow> \<not> P c"
  shows "takeWhile P (t @ r) = t" "dropWhile P (t @ r) = r"
  using assms by (induction t) (auto split: list.splits)

lemma delimited_not:
  assumes "delimited r" "\<not> P CHR '',''" "\<not> P CHR ''}''"
  shows "case r of [] \<Rightarrow> True | c # _ \<Rightarrow> \<not> P c"
  using assms by (auto simp: delimited_def split: list.splits)

lemma scalar_token_string: "utf8_ValidString s \<Longrightarrow> scalar_token (appendString s)"
  by (simp add: scalar_token_def scan_scalar_appendString)
     (simp add: appendString_def isSpace_def dquote_def)

lemma scalar_token_null: "scalar_token ''null''"
proof -
  have "scan_scalar (''null'' @ r) = Some (''null'', r)" if "delimited r" for r
  proof -
    have r: "case r of [] \<Rightarrow> True | c # _ \<Rightarrow> \<not> is_lower c"
      by (rule delimited_not [OF that]) (simp_all add: is_lower_def)
    have "takeWhile is_lower (''null'' @ r) = ''null''" "dropWhile is_lower (''null'' @ r) = r"
      by (rule takeWhile_token [OF _ r], simp add: is_lower_def)+
    then have "takeWhile is_lower (CHR ''n'' # ''ull'' @ r) = ''null''"
      "dropWhile is_lower (CHR ''n'' # ''ull'' @ r) = r"
      by simp_all
    then show ?thesis
      by (simp add: scan_scalar_def dquote_def is_digit_def del: takeWhile.simps dropWhile.simps)
  qed
  then show ?thesis
    by (simp add: scalar_token_def isSpace_def)
qed

lemma valid_number_digits:
  assumes "t \<noteq> []" "\<forall>c \<in> set t. is_digit c" "hd t = CHR ''0'' \<longrightarrow> length t = 1"
  shows "valid_number t"
proof -
  from assms(1,2) have "hd t \<noteq> CHR ''-''"
    by (cases t) (auto simp: is_digit_def)
  with assms(1) have s1: "(case t of [] \<Rightarrow> [] | c # r \<Rightarrow> if c = CHR ''-'' then r else t) = t"
    by (cases t) simp_all
  have tw: "takeWhile is_digit t = t" and dw: "dropWhile is_digit t = []"
    using assms(2) by simp_all
  show ?thesis
    unfolding valid_number_def s1 Let_def tw dw using assms(1,3) by simp
qed

lemma scalar_token_itoa:
  assumes "0 \<le> n"
  shows "scalar_token (itoa n)"
proof -
  have digits: "\<forall>c \<in> set (itoa n). is_digit c"
    using itoa_digits [OF assms] by (simp add: list_all_iff is_digit_def)
  obtain c cs where cs: "itoa n = c # cs"
    using itoa_not_Nil [of n] by (cases "itoa n") auto
  with digits have c: "is_digit c" by simp
  have lead: "hd (itoa n) = CHR ''0'' \<longrightarrow> length (itoa n) = 1"
  proof (cases "n = 0")
    case True
    then show ?thesis by (simp add: itoa_zero)
  next
    case False
    with assms have "0 < n" by simp
    from itoa_no_leading_zero [OF this] show ?thesis by simp
  qed
  have valid: "valid_number (itoa n)"
    using itoa_not_Nil digits lead by (rule valid_number_digits)
  have "scan_scalar (itoa n @ r) = Some (itoa n, r)" if "delimited r" for r
  proof -
    have r: "case r of [] \<Rightarrow> True | c # _ \<Rightarrow> \<not> is_number_char c"
      by (rule delimited_not [OF that]) (simp_all add: is_number_char_def is_digit_def)
    have "\<forall>c \<in> set (itoa n). is_number_char c"
      using digits by (simp add: is_number_char_def)
    from takeWhile_token [OF this r]
    have "takeWhile is_number_char (itoa n @ r) = itoa n" "dropWhile is_number_char (itoa n @ r) = r" .
    then have "takeWhile is_number_char (c # cs @ r) = c # cs" "dropWhile is_number_char (c # cs @ r) = r"
      by (simp_all add: cs)
    moreover have "c \<noteq> dquote"
      using c by (auto simp: is_digit_def dquote_def)
    ultimately show ?thesis
      using valid c by (simp add: scan_scalar_def cs del: takeWhile.simps dropWhile.simps)
  qed
  moreover have "\<not> isSpace c" "c \<noteq> CHR ''{''" "c \<noteq> CHR ''[''"
    using c by (auto simp: is_digit_def isSpace_def)
  ultimately show ?thesis
    by (simp add: scalar_token_def cs)
qed

lemma skip_space_token: "t \<noteq> [] \<Longrightarrow> \<not> isSpace (hd t) \<Longrightarrow> skip_space (t @ r) = t @ r"
  by (cases t) (simp_all add: skip_space_def)

lemma parses_scalar:
  assumes "scalar_token t"
  shows "parses (Scalar t) 1 D"
  unfolding parses_def
proof (intro allI impI)
  fix fuel d :: nat and r :: string
  assume "1 \<le> fuel" and r: "delimited r"
  then obtain f where fuel: "fuel = Suc f"
    by (cases fuel) auto
  from assms obtain c cs where t: "t = c # cs"
    by (cases t) (auto simp: scalar_token_def)
  from assms have c: "\<not> isSpace c" "c \<noteq> CHR ''{''" "c \<noteq> CHR ''[''"
    by (simp_all add: scalar_token_def t)
  from assms r have "scan_scalar (c # cs @ r) = Some (c # cs, r)"
    by (simp add: scalar_token_def t)
  then show "parse_value fuel d (render (Scalar t) @ r) = Some (Scalar t, r)"
    using c by (simp add: fuel t skip_space_def)
qed

lemma parses_mono: "parses v n D \<Longrightarrow> n \<le> m \<Longrightarrow> D' \<le> D \<Longrightarrow> parses v m D'"
  by (simp add: parses_def)

lemma join_commas_simps:
  "join_commas [] = []" "join_commas [x] = x"
  "join_commas (x # y # ys) = x @ '','' @ join_commas (y # ys)"
  by (simp_all add: join_commas_def)

lemma render_Object: "render (Object ms) = CHR ''{'' # join_commas (map member_text ms) @ ''}''"
  by (simp add: member_text_def [abs_def] split_def)

lemma join_commas_Cons: "join_commas (x # xs) = x @ concat (map ((@) '','') xs)"
  by (simp add: join_commas_def)

lemma length_join_commas:
  "\<forall>x \<in> set xs. x \<noteq> [] \<Longrightarrow> length xs \<le> length (join_commas xs)"
proof (induction xs rule: induct_list012)
  case 1
  show ?case by simp
next
  case (2 x)
  then show ?case
    by (simp add: join_commas_simps Suc_le_eq)
next
  case (3 x y zs)
  then have "length (y # zs) \<le> length (join_commas (y # zs))" "0 < length x"
    by simp_all
  moreover have "length (join_commas (x # y # zs)) = length x + 1 + length (join_commas (y # zs))"
    by (simp only: join_commas_simps(3) length_append) simp
  ultimately show ?case
    by simp
qed

lemma key_literal_scan: "key_literal name \<Longrightarrow> scan_scalar (name @ r) = Some (name, r)"
  by (auto simp: key_literal_def scan_scalar_appendString)

lemma key_literal_hd: "key_literal name \<Longrightarrow> \<exists>t. name = dquote # t"
  by (auto simp: key_literal_def appendString_def)

lemma members_text_hd:
  assumes "ms \<noteq> []" "\<forall>m \<in> set ms. key_literal (fst m)"
  shows "\<exists>t. join_commas (map member_text ms) = dquote # t"
proof -
  from assms(1) obtain m rest where ms: "ms = m # rest"
    by (cases ms) auto
  with assms(2) obtain t where "fst m = dquote # t"
    using key_literal_hd [of "fst m"] by auto
  then show ?thesis
    by (simp add: ms join_commas_Cons member_text_def)
qed

lemma skip_space_simps:
  "skip_space (dquote # t) = dquote # t" "skip_space (CHR '':'' # t) = CHR '':'' # t"
  "skip_space (CHR '','' # t) = CHR '','' # t" "skip_space (CHR ''}'' # t) = CHR ''}'' # t"
  "skip_space (CHR ''{'' # t) = CHR ''{'' # t"
  by (simp_all add: skip_space_def isSpace_def dquote_def)

lemma parse_member:
  assumes "key_literal name" "parses v n D" "n \<le> f" "d \<le> D" "sep = CHR '','' \<or> sep = CHR ''}''"
  shows "parse_members (Suc f) d (member_text (name, v) @ sep # r) =
     (if sep = CHR ''}'' then Some ([(name, v)], r)
      else map_option (\<lambda>(ms, rest). ((name, v) # ms, rest)) (parse_members f d (skip_space r)))"
proof -
  obtain t where name: "name = dquote # t"
    using key_literal_hd [OF assms(1)] by blast
  have scan: "scan_scalar (dquote # t @ CHR '':'' # render v @ sep # r)
      = Some (name, CHR '':'' # render v @ sep # r)"
    using key_literal_scan [OF assms(1), of "CHR '':'' # render v @ sep # r"] by (simp add: name)
  have "delimited (sep # r)"
    using assms(5) by (auto simp: delimited_def)
  with assms(2-4) have val: "parse_value f d (render v @ sep # r) = Some (v, sep # r)"
    by (simp add: parses_def)
  show ?thesis
    using assms(5)
    by (auto simp: member_text_def name scan val skip_space_simps)
qed

lemma parse_members_ok:
  assumes "\<forall>m \<in> set ms. key_literal (fst m) \<and> parses (snd m) n D"
    and "ms \<noteq> []" "length ms + n \<le> fuel" "d \<le> D"
  shows "parse_members fuel d (join_commas (map member_text ms) @ CHR ''}'' # r) = Some (ms, r)"
  using assms
proof (induction ms arbitrary: fuel rule: induct_list012)
  case 1
  then show ?case by simp
next
  case (2 m)
  then obtain f where fuel: "fuel = Suc f" "n \<le> f"
    by (cases fuel) auto
  obtain name v where m: "m = (name, v)" by (cases m)
  from 2 have "key_literal name" "parses v n D"
    by (simp_all add: m)
  from parse_member [OF this fuel(2) \<open>d \<le> D\<close>, of "CHR ''}''" r]
  show ?case
    by (simp add: join_commas_simps fuel m)
next
  case (3 m m' rest)
  then obtain f where fuel: "fuel = Suc f" "n \<le> f" "length (m' # rest) + n \<le> f"
    by (cases fuel) auto
  obtain name v where m: "m = (name, v)" by (cases m)
  from 3 have km: "key_literal name" "parses v n D"
    and tail: "\<forall>m \<in> set (m' # rest). key_literal (fst m) \<and> parses (snd m) n D"
    by (simp_all add: m)
  define tailtext where "tailtext = join_commas (map member_text (m' # rest))"
  obtain t where t: "tailtext = dquote # t"
    using members_text_hd [of "m' # rest"] tail unfolding tailtext_def by auto
  have "parse_members f d (tailtext @ CHR ''}'' # r) = Some (m' # rest, r)"
    unfolding tailtext_def using tail fuel(3) \<open>d \<le> D\<close> by (intro "3.IH"(2)) simp_all
  then have next_members: "parse_members f d (skip_space (tailtext @ CHR ''}'' # r)) = Some (m' # rest, r)"
    by (simp add: t skip_space_simps)
  have eq: "join_commas (map member_text (m # m' # rest)) @ CHR ''}'' # r
      = member_text (name, v) @ CHR '','' # (tailtext @ CHR ''}'' # r)"
    unfolding tailtext_def by (simp add: join_commas_simps m)
  have "parse_members (Suc f) d (member_text (name, v) @ CHR '','' # (tailtext @ CHR ''}'' # r))
      = Some ((name, v) # m' # rest, r)"
    using parse_member [OF km fuel(2) \<open>d \<le> D\<close>, of "CHR '',''" "tailtext @ CHR ''}'' # r"]
    by (simp add: next_members del: parse_members.simps)
  then show ?case
    unfolding fuel(1) eq by (simp only: m)
qed

lemma parses_Object:
  assumes "\<forall>m \<in> set ms. key_literal (fst m) \<and> parses (snd m) n (Suc D)"
    and "D < maxNestingDepth"
  shows "parses (Object ms) (Suc (length ms + n)) D"
  unfolding parses_def
proof (intro allI impI)
  fix fuel d :: nat and r :: string
  assume "Suc (length ms + n) \<le> fuel" and d: "d \<le> D"
  then obtain f where fuel: "fuel = Suc f" "length ms + n \<le> f"
    by (cases fuel) auto
  from d assms(2) have depth: "\<not> maxNestingDepth \<le> d"
    by simp
  show "parse_value fuel d (render (Object ms) @ r) = Some (Object ms, r)"
  proof (cases "ms = []")
    case True
    then show ?thesis
      using depth by (simp add: fuel render_Object join_commas_simps skip_space_simps del: render.simps)
  next
    case False
    obtain t where t: "join_commas (map member_text ms) = dquote # t"
      using members_text_hd [OF False] assms(1) by auto
    have "Suc d \<le> Suc D"
      using d by simp
    from parse_members_ok [OF assms(1) False fuel(2) this]
    have "parse_members f (Suc d) (join_commas (map member_text ms) @ CHR ''}'' # r) = Some (ms, r)" .
    then have "parse_members f (Suc d) (dquote # t @ CHR ''}'' # r) = Some (ms, r)"
      by (simp add: t)
    moreover have "dquote \<noteq> CHR ''}''"
      by (simp add: dquote_def)
    ultimately show ?thesis
      using depth
      by (simp add: fuel render_Object t skip_space_simps del: render.simps)
  qed
qed

subsection \<open>The text of a key\<close>

lemma json_parse_render:
  assumes "parses j n 0" "n \<le> Suc (length (render j))"
  shows "json_parse (render j) = Some j"
proof -
  have "delimited []"
    by (simp add: delimited_def)
  with assms have "parse_value (Suc (length (render j))) 0 (render j @ []) = Some (j, [])"
    unfolding parses_def by blast
  then show ?thesis
    by (simp add: json_parse_def skip_space_def del: parse_value.simps)
qed

lemma key_literal_appendString: "utf8_ValidString s \<Longrightarrow> key_literal (appendString s)"
  by (auto simp: key_literal_def)

lemma parses_string: "utf8_ValidString s \<Longrightarrow> parses (Scalar (appendString s)) 1 D"
  by (intro parses_scalar scalar_token_string)

lemma parses_marshal_map:
  assumes "\<forall>es. m = Some es \<longrightarrow> (\<forall>(key, v) \<in> set es. utf8_ValidString key \<and> utf8_ValidString v)"
  shows "parses (marshal_map m) (length (render (marshal_map m))) 1"
proof (cases m)
  case None
  have "parses (Scalar ''null'') 1 1"
    by (intro parses_scalar scalar_token_null)
  then show ?thesis
    by (simp add: None marshal_map_def parses_mono)
next
  case (Some es)
  define inner where "inner = map (\<lambda>(key, v). (appendString key, Scalar (appendString v))) (sort_key fst es)"
  have "key_literal (appendString key) \<and> parses (Scalar (appendString v)) 1 (Suc 1)"
    if "(key, v) \<in> set (sort_key fst es)" for key v
  proof -
    from that assms Some have "utf8_ValidString key" "utf8_ValidString v"
      by auto
    then show ?thesis
      using key_literal_appendString parses_string by blast
  qed
  then have members: "\<forall>m \<in> set inner. key_literal (fst m) \<and> parses (snd m) 1 (Suc 1)"
    unfolding inner_def by (auto simp del: One_nat_def)
  have "(1 :: nat) < maxNestingDepth"
    by (simp add: maxNestingDepth_def)
  with members have p: "parses (Object inner) (Suc (length inner + 1)) 1"
    by (rule parses_Object)
  have "\<forall>x \<in> set (map member_text inner). x \<noteq> []"
    by (simp add: member_text_def)
  from length_join_commas [OF this]
  have "Suc (length inner + 1) \<le> length (render (Object inner))"
    by (simp add: render_Object del: render.simps)
  with p have "parses (Object inner) (length (render (Object inner))) 1"
    by (rule parses_mono) simp
  then show ?thesis
    by (simp only: Some marshal_map_def inner_def option.case)
qed

lemma parses_mono_fuel: "parses v n D \<Longrightarrow> n \<le> m \<Longrightarrow> parses v m D"
  by (simp add: parses_def)

lemma json_parse_struct:
  assumes meta: "\<forall>es. m = Some es \<longrightarrow>
      (\<forall>(key, v) \<in> set es. utf8_ValidString key \<and> utf8_ValidString v)"
    and tokens: "scalar_token kind" "scalar_token votes" "scalar_token pub"
  shows "json_parse (render (Object
      [(appendString ''Kind'', Scalar kind), (appendString ''Votes'', Scalar votes),
       (appendString ''Public'', Scalar pub), (appendString ''Meta'', marshal_map m)]))
    = Some (Object
      [(appendString ''Kind'', Scalar kind), (appendString ''Votes'', Scalar votes),
       (appendString ''Public'', Scalar pub), (appendString ''Meta'', marshal_map m)])"
    (is "json_parse (render (Object ?ms)) = _")
proof -
  define n where "n = Suc (length (render (marshal_map m)))"
  have scalars: "parses (Scalar kind) n 1" "parses (Scalar votes) n 1" "parses (Scalar pub) n 1"
    using tokens by (auto intro!: parses_mono_fuel [OF parses_scalar] simp: n_def)
  have map: "parses (marshal_map m) n 1"
    using parses_marshal_map [OF meta] by (rule parses_mono_fuel) (simp add: n_def)
  have "\<forall>m \<in> set ?ms. key_literal (fst m) \<and> parses (snd m) n (Suc 0)"
    using scalars map by (simp add: key_literal_appendString valid_field_names)
  moreover have "0 < maxNestingDepth"
    by (simp add: maxNestingDepth_def)
  ultimately have p: "parses (Object ?ms) (Suc (length ?ms + n)) 0"
    by (rule parses_Object)
  have "length (appendString ''Kind'') = 6"
    using appendString_body_all_safe [of "''Kind''"]
    by (simp add: appendString_def htmlSafe_def dquote_def backslash_def)
  then have "Suc (length ?ms + n) \<le> Suc (length (render (Object ?ms)))"
    by (simp add: n_def render_Object join_commas_simps member_text_def del: render.simps)
  with p show ?thesis
    by (rule json_parse_render)
qed

lemma scalar_token_jsonPublicKey:
  assumes "jsonPublicKey_MarshalJSON p = Inr t"
  shows "scalar_token t"
proof (cases "slice_bytes p = []")
  case True
  with assms show ?thesis
    by (auto simp: jsonPublicKey_MarshalJSON_def scalar_token_null)
next
  case False
  have "utf8_ValidString (''tlpub:'' @ fmt_x (slice_bytes p))"
    by (rule htmlSafe_valid) (rule htmlSafe_tlpub)
  from scalar_token_string [OF this] show ?thesis
    using assms False by (simp add: jsonPublicKey_MarshalJSON_def json_Marshal_string_def)
qed

lemma Key_roundtrip:
  assumes kind: "Kind k = KeyInvalid \<or> Kind k = Key25519"
    and meta: "\<forall>es. Meta k = Some es \<longrightarrow>
             distinct (map fst es) \<and> (\<forall>(key, v) \<in> set es. utf8_ValidString key \<and> utf8_ValidString v)"
  shows "and_then (Key_MarshalJSON k) Key_UnmarshalJSON
           = Inr \<lparr>Kind = Kind k, Votes = Votes k, Public = Some (slice_bytes (Public k)),
                  Meta = map_option (sort_key fst) (Meta k)\<rparr>"
proof -
  obtain t where t: "jsonPublicKey_MarshalJSON (Public k) = Inr t"
    using jsonPublicKey_MarshalJSON_total by blast
  let ?j = "Object
      [(appendString ''Kind'', Scalar (appendString (KeyKind_String (Kind k)))),
       (appendString ''Votes'', Scalar (itoa (uint (Votes k)))),
       (appendString ''Public'', Scalar t),
       (appendString ''Meta'', marshal_map (Meta k))]"
  have enc: "marshal_struct k = Inr ?j"
    by (simp add: marshal_struct_def KeyKind_MarshalText_def t)
  have "utf8_ValidString (KeyKind_String (Kind k))"
    using kind by (auto simp: KeyKind_String_def valid_field_names KeyInvalid_def Key25519_def)
  then have tokens: "scalar_token (appendString (KeyKind_String (Kind k)))"
    "scalar_token (itoa (uint (Votes k)))" "scalar_token t"
    by (simp_all add: scalar_token_string scalar_token_itoa scalar_token_jsonPublicKey [OF t])
  have valid: "\<forall>es. Meta k = Some es \<longrightarrow>
      (\<forall>(key, v) \<in> set es. utf8_ValidString key \<and> utf8_ValidString v)"
    using meta by blast
  have parse: "json_parse (render ?j) = Some ?j"
    using valid tokens by (rule json_parse_struct)
  from struct_roundtrip [OF kind meta] show ?thesis
    unfolding Key_MarshalJSON_def Key_UnmarshalJSON_def enc and_then_def
    by (simp only: sum.case parse option.case)
qed

text \<open>
  Claim C4, as the code has it. Unmarshalling the JSON of a \<^verbatim>\<open>KeyID\<close> gives the
  \<^verbatim>\<open>KeyID\<close> back, with the empty slice for a \<^verbatim>\<open>nil\<close> or empty one. Unmarshalling the
  JSON of a \<^verbatim>\<open>Key\<close> whose \<^verbatim>\<open>Kind\<close> is \<^verbatim>\<open>KeyInvalid\<close> or \<^verbatim>\<open>Key25519\<close> and whose
  \<^verbatim>\<open>Meta\<close> keys and values are valid UTF-8 gives back its \<^verbatim>\<open>Kind\<close>, \<^verbatim>\<open>Votes\<close>,
  \<^verbatim>\<open>Public\<close> (the empty slice for a \<^verbatim>\<open>nil\<close> one) and \<^verbatim>\<open>Meta\<close> (the same map, \<^verbatim>\<open>nil\<close>
  when it was \<^verbatim>\<open>nil\<close>; the decoder stores the entries in the order of their keys). The
  claim as stated, for every \<^verbatim>\<open>Meta\<close>, fails: the encoder replaces a byte that is not
  valid UTF-8 by U+FFFD, so a value \<^verbatim>\<open>"\xff"\<close> comes back as \<^verbatim>\<open>"\xef\xbf\xbd"\<close>.
\<close>

theorem json_roundtrip:
  assumes "Kind k = KeyInvalid \<or> Kind k = Key25519"
    and "\<forall>es. Meta k = Some es \<longrightarrow>
           distinct (map fst es) \<and>
           (\<forall>(key, v) \<in> set es. utf8_ValidString key \<and> utf8_ValidString v)"
  shows "and_then (KeyID_MarshalJSON kid) KeyID_UnmarshalJSON = Inr (Some (slice_bytes kid)) \<and>
         and_then (Key_MarshalJSON k) Key_UnmarshalJSON
           = Inr \<lparr>Kind = Kind k, Votes = Votes k, Public = Some (slice_bytes (Public k)),
                  Meta = map_option (sort_key fst) (Meta k)\<rparr> \<and>
         map_option map_of (map_option (sort_key fst) (Meta k)) = map_option map_of (Meta k)"
proof -
  have "map_option map_of (map_option (sort_key fst) (Meta k)) = map_option map_of (Meta k)"
    using assms(2) by (cases "Meta k") (simp_all add: map_of_sort_key)
  with KeyID_roundtrip [of kid] Key_roundtrip [OF assms] show ?thesis
    by simp
qed

theorem json_roundtrip_witness:
  "distinct (map fst [(''name'', ''laptop''), (''dept'', ''ops'')]) \<and>
   and_then (KeyID_MarshalJSON (Some [3, 4])) KeyID_UnmarshalJSON = Inr (Some [3, 4]) \<and>
   and_then (KeyID_MarshalJSON None) KeyID_UnmarshalJSON = Inr (Some []) \<and>
   and_then
     (Key_MarshalJSON \<lparr>Kind = Key25519, Votes = 1, Public = Some [2, 2],
                        Meta = Some [(''name'', ''laptop''), (''dept'', ''ops'')]\<rparr>)
     Key_UnmarshalJSON
     = Inr \<lparr>Kind = Key25519, Votes = 1, Public = Some [2, 2],
            Meta = Some [(''dept'', ''ops''), (''name'', ''laptop'')]\<rparr> \<and>
   and_then
     (Key_MarshalJSON \<lparr>Kind = Key25519, Votes = 1, Public = None, Meta = None\<rparr>)
     Key_UnmarshalJSON
     = Inr \<lparr>Kind = Key25519, Votes = 1, Public = Some [], Meta = None\<rparr>"
proof -
  let ?k = "\<lparr>Kind = Key25519, Votes = 1, Public = Some [2, 2],
             Meta = Some [(''name'', ''laptop''), (''dept'', ''ops'')]\<rparr>"
  let ?k' = "\<lparr>Kind = Key25519, Votes = 1, Public = None, Meta = None\<rparr>"
  have valid: "utf8_ValidString ''name''" "utf8_ValidString ''laptop''"
    "utf8_ValidString ''dept''" "utf8_ValidString ''ops''"
    by (rule htmlSafe_valid, simp add: htmlSafe_def dquote_def backslash_def)+
  have kind: "Kind ?k = KeyInvalid \<or> Kind ?k = Key25519" "Kind ?k' = KeyInvalid \<or> Kind ?k' = Key25519"
    by simp_all
  have meta: "\<forall>es. Meta ?k = Some es \<longrightarrow>
           distinct (map fst es) \<and>
           (\<forall>(key, v) \<in> set es. utf8_ValidString key \<and> utf8_ValidString v)"
    by (simp add: valid)
  have meta': "\<forall>es. Meta ?k' = Some es \<longrightarrow>
           distinct (map fst es) \<and>
           (\<forall>(key, v) \<in> set es. utf8_ValidString key \<and> utf8_ValidString v)"
    by simp
  from json_roundtrip [OF kind(1) meta, of "Some [3, 4]"] json_roundtrip [OF kind(2) meta', of None]
  show ?thesis
    by (simp add: slice_bytes_def)
qed

text \<open>
  The claim as stated fails on a metadata value that is the single byte \<^verbatim>\<open>0xFF\<close>.
\<close>

theorem Key_json_roundtrip_counterexample:
  "and_then
     (Key_MarshalJSON \<lparr>Kind = Key25519, Votes = 1, Public = Some [2, 2],
                        Meta = Some [(''name'', [CHR 0xFF])]\<rparr>)
     Key_UnmarshalJSON
     = Inr \<lparr>Kind = Key25519, Votes = 1, Public = Some [2, 2],
            Meta = Some [(''name'', [CHR 0xEF, CHR 0xBF, CHR 0xBD])]\<rparr> \<and>
   and_then
     (Key_MarshalJSON \<lparr>Kind = Key25519, Votes = 1, Public = Some [2, 2],
                        Meta = Some [(''name'', [CHR 0xFF])]\<rparr>)
     Key_UnmarshalJSON
     \<noteq> Inr \<lparr>Kind = Key25519, Votes = 1, Public = Some [2, 2],
              Meta = Some [(''name'', [CHR 0xFF])]\<rparr>"
  by code_simp

section \<open>The JSON log printer\<close>

text \<open>
  Claim C6. For every list of updates and every version other than 1,
  \<^verbatim>\<open>PrintNetworkLockJSON\<close> returns the error \<^verbatim>\<open>unrecognised version\<close> and writes nothing;
  for version 1 it is the V1 printer.
\<close>

theorem PrintNetworkLockJSON_version:
  "(jsonVersion \<noteq> 1 \<longrightarrow>
      PrintNetworkLockJSON env out updates jsonVersion
        = (out, Inl (UnrecognisedVersion jsonVersion))) \<and>
   PrintNetworkLockJSON env out updates 1 = printNetworkLockJSONV1 env out updates"
  by (simp add: PrintNetworkLockJSON_def)

theorem PrintNetworkLockJSON_version_witness:
  "PrintNetworkLockJSON
      \<lparr>Unserialize = Inr, AUMHash = take 1, EncodeToString = map (\<lambda>b. CHR ''A''),
       Encode = (\<lambda>v ms. Inr v)\<rparr> ''log: ''
      [\<lparr>Hash = [1], Change = ''add-key'', Raw = [1, 2]\<rparr>] 2
     = (''log: '', Inl (UnrecognisedVersion 2))"
  using PrintNetworkLockJSON_version
    [of 2 "\<lparr>Unserialize = Inr, AUMHash = take 1, EncodeToString = map (\<lambda>b. CHR ''A''),
       Encode = (\<lambda>v ms. Inr v)\<rparr>" "''log: ''" "[\<lparr>Hash = [1], Change = ''add-key'', Raw = [1, 2]\<rparr>]"]
  by simp

lemma messagesV1_rejected:
  "\<exists>u \<in> set updates. rejected env u \<Longrightarrow> isl (messagesV1 env updates)"
proof (induction updates)
  case Nil
  then show ?case by simp
next
  case (Cons u us)
  show ?case
  proof (cases "rejected env u")
    case True
    then show ?thesis
      by (auto simp: rejected_def split: sum.splits)
  next
    case False
    with Cons.prems have "\<exists>u \<in> set us. rejected env u"
      by auto
    from Cons.IH [OF this] show ?thesis
      by (auto split: sum.splits)
  qed
qed

text \<open>
  Claim C9. If the bytes of some update do not decode, or the hash of the AUM decoded from
  them differs from the hash the update states, \<^verbatim>\<open>printNetworkLockJSONV1\<close> returns an
  error and writes nothing.
\<close>

theorem printNetworkLockJSONV1_verifies:
  assumes "\<exists>u \<in> set updates. rejected env u"
  shows "fst (printNetworkLockJSONV1 env out updates) = out \<and>
         isl (snd (printNetworkLockJSONV1 env out updates))"
  using messagesV1_rejected [OF assms]
  by (auto simp: printNetworkLockJSONV1_def split: sum.splits)

theorem printNetworkLockJSONV1_verifies_witness:
  "printNetworkLockJSONV1
      \<lparr>Unserialize = (\<lambda>b. if b = [] then Inl (ExternalError ''EOF'') else Inr b),
       AUMHash = take 1, EncodeToString = map (\<lambda>b. CHR ''A''), Encode = (\<lambda>v ms. Inr v)\<rparr>
      ''log: ''
      [\<lparr>Hash = [1], Change = ''add-key'', Raw = [1, 2]\<rparr>,
       \<lparr>Hash = [9], Change = ''remove-key'', Raw = [3]\<rparr>]
     = (''log: '', Inl (IncorrectAUMHash [3] \<lparr>Hash = [9], Change = ''remove-key'', Raw = [3]\<rparr>))"
proof -
  let ?env = "\<lparr>Unserialize = (\<lambda>b. if b = [] then Inl (ExternalError ''EOF'') else Inr b),
       AUMHash = take 1, EncodeToString = map (\<lambda>b. CHR ''A''), Encode = (\<lambda>v ms. Inr v)\<rparr>"
  let ?us = "[\<lparr>Hash = [1], Change = ''add-key'', Raw = [1, 2]\<rparr>,
       \<lparr>Hash = [9], Change = ''remove-key'', Raw = [3]\<rparr>]"
  have h: "\<exists>u \<in> set ?us. rejected ?env u"
    by (simp add: rejected_def)
  from printNetworkLockJSONV1_verifies [OF h, of "''log: ''"]
  show ?thesis
    by (simp add: printNetworkLockJSONV1_def)
qed

end
